theory Spec2Isabelle
  imports Complex_Main "HOL-Library.Word"
begin

section \<open>Data model\<close>

text \<open>
  The C type \<open>size_t\<close> is an unsigned machine integer; its arithmetic wraps around.
  It is modelled as a 64-bit word (the LP64 data model).
\<close>

type_synonym size_t = "64 word"

text \<open>
  The C type \<open>double\<close>: a finite value is the real number it stands for (the sign of
  zero is not modelled), and the infinities and NaN are values of their own.
\<close>

datatype double = Fin real | PInf | NInf | NaN

text \<open>
  Every arithmetic operation of C computes the exact result and rounds it to a
  \<open>double\<close>. The rounding is a parameter \<open>rnd\<close> of the model, so that a theorem can be
  stated for every rounding, for exact arithmetic (\<open>exact\<close>: nothing is rounded) or for
  the arithmetic of the machine (\<open>binary64\<close>, below).
\<close>

type_synonym rounding = "real \<Rightarrow> double"

abbreviation exact :: rounding where
  "exact \<equiv> Fin"

text \<open>
  Rounding to the nearest integer, ties to the even one, and with it the rounding of
  IEEE 754 binary64 in the default mode: 53 significant bits, the least exponent that
  of the subnormal numbers, overflow to an infinity.
\<close>

definition rne :: "real \<Rightarrow> int" where
  "rne y =
     (let f = \<lfloor>y\<rfloor>; d = y - of_int f
      in if d < 1 / 2 then f else if 1 / 2 < d then f + 1 else if even f then f else f + 1)"

definition binary64 :: rounding where
  "binary64 x =
     (if x = 0 then Fin 0
      else
        (let e = max \<lfloor>log 2 \<bar>x\<bar>\<rfloor> (- 1022);
             ulp = 2 powr of_int (e - 52);
             y = of_int (rne (x / ulp)) * ulp
         in if 2 ^ 1024 \<le> \<bar>y\<bar> then (if 0 < x then PInf else NInf) else Fin y))"

fun dneg :: "double \<Rightarrow> double" where
  "dneg (Fin a) = Fin (- a)"
| "dneg PInf = NInf"
| "dneg NInf = PInf"
| "dneg NaN = NaN"

fun dadd :: "rounding \<Rightarrow> double \<Rightarrow> double \<Rightarrow> double" where
  "dadd rnd NaN _ = NaN"
| "dadd rnd _ NaN = NaN"
| "dadd rnd (Fin a) (Fin b) = rnd (a + b)"
| "dadd rnd PInf NInf = NaN"
| "dadd rnd NInf PInf = NaN"
| "dadd rnd PInf _ = PInf"
| "dadd rnd _ PInf = PInf"
| "dadd rnd NInf _ = NInf"
| "dadd rnd _ NInf = NInf"

definition dsub :: "rounding \<Rightarrow> double \<Rightarrow> double \<Rightarrow> double" where
  "dsub rnd a b = dadd rnd a (dneg b)"

fun dmul :: "rounding \<Rightarrow> double \<Rightarrow> double \<Rightarrow> double" where
  "dmul rnd NaN _ = NaN"
| "dmul rnd _ NaN = NaN"
| "dmul rnd (Fin a) (Fin b) = rnd (a * b)"
| "dmul rnd (Fin a) PInf = (if a = 0 then NaN else if 0 < a then PInf else NInf)"
| "dmul rnd (Fin a) NInf = (if a = 0 then NaN else if 0 < a then NInf else PInf)"
| "dmul rnd PInf (Fin b) = (if b = 0 then NaN else if 0 < b then PInf else NInf)"
| "dmul rnd NInf (Fin b) = (if b = 0 then NaN else if 0 < b then NInf else PInf)"
| "dmul rnd PInf PInf = PInf"
| "dmul rnd PInf NInf = NInf"
| "dmul rnd NInf PInf = NInf"
| "dmul rnd NInf NInf = PInf"

text \<open>Division; a zero divisor is read as \<open>+0.0\<close>.\<close>

fun ddiv :: "rounding \<Rightarrow> double \<Rightarrow> double \<Rightarrow> double" where
  "ddiv rnd NaN _ = NaN"
| "ddiv rnd _ NaN = NaN"
| "ddiv rnd (Fin a) (Fin b) =
     (if b = 0 then (if a = 0 then NaN else if 0 < a then PInf else NInf)
      else rnd (a / b))"
| "ddiv rnd (Fin a) PInf = Fin 0"
| "ddiv rnd (Fin a) NInf = Fin 0"
| "ddiv rnd PInf (Fin b) = (if 0 \<le> b then PInf else NInf)"
| "ddiv rnd NInf (Fin b) = (if 0 \<le> b then NInf else PInf)"
| "ddiv rnd PInf PInf = NaN"
| "ddiv rnd PInf NInf = NaN"
| "ddiv rnd NInf PInf = NaN"
| "ddiv rnd NInf NInf = NaN"

text \<open>
  The C library's \<open>sqrt\<close>, which IEEE 754 requires to be correctly rounded; a negative
  argument gives NaN.
\<close>

fun dsqrt :: "rounding \<Rightarrow> double \<Rightarrow> double" where
  "dsqrt rnd (Fin a) = (if a < 0 then NaN else rnd (sqrt a))"
| "dsqrt rnd PInf = PInf"
| "dsqrt rnd NInf = NaN"
| "dsqrt rnd NaN = NaN"

text \<open>
  The function \<open>pow\<close> of the C library. The code calls it with the literal exponent 4,
  so only exponents that are natural numbers are modelled. The C standard does not say
  how accurate \<open>pow\<close> is, and the libraries in use do not round it correctly (the result
  of the GNU C library can differ from the correctly rounded one by a unit in the last
  place). The library's \<open>pow\<close> is therefore a parameter \<open>pw\<close> of the model of the builders,
  with \<open>pw r k\<close> for \<open>pow(r, k)\<close>.
\<close>

type_synonym power = "double \<Rightarrow> nat \<Rightarrow> double"

text \<open>
  The \<open>pow\<close> of a library that rounds correctly: \<open>dpow exact\<close> is the mathematical power,
  \<open>dpow binary64\<close> agrees with every library whose error is below one unit in the last
  place wherever the power is a \<open>double\<close> itself.
\<close>

fun dpow :: "rounding \<Rightarrow> power" where
  "dpow rnd (Fin a) k = rnd (a ^ k)"
| "dpow rnd PInf k = (if k = 0 then Fin 1 else PInf)"
| "dpow rnd NInf k = (if k = 0 then Fin 1 else if even k then PInf else NInf)"
| "dpow rnd NaN k = (if k = 0 then Fin 1 else NaN)"

text \<open>The comparisons \<open>==\<close> and \<open>>\<close>; both are false when an operand is NaN.\<close>

fun deq :: "double \<Rightarrow> double \<Rightarrow> bool" where
  "deq (Fin a) (Fin b) = (a = b)"
| "deq PInf PInf = True"
| "deq NInf NInf = True"
| "deq _ _ = False"

fun dgt :: "double \<Rightarrow> double \<Rightarrow> bool" where
  "dgt (Fin a) (Fin b) = (b < a)"
| "dgt PInf (Fin b) = True"
| "dgt PInf NInf = True"
| "dgt (Fin a) NInf = True"
| "dgt _ _ = False"

text \<open>The implicit conversion of a \<open>size_t\<close> to \<open>double\<close>, rounded like an operation.\<close>

definition double_of_size :: "rounding \<Rightarrow> size_t \<Rightarrow> double" where
  "double_of_size rnd n = rnd (real (unat n))"

text \<open>
  Memory: a buffer is a list, an index is a \<open>size_t\<close>. The code checks no bound;
  a read or a write outside the buffer is undefined behaviour in C, the value \<open>None\<close>
  in the model.
\<close>

definition rd :: "'a list \<Rightarrow> size_t \<Rightarrow> 'a option" where
  "rd buf i = (if unat i < length buf then Some (buf ! unat i) else None)"

definition wr :: "'a list \<Rightarrow> size_t \<Rightarrow> 'a \<Rightarrow> 'a list option" where
  "wr buf i v = (if unat i < length buf then Some (buf[unat i := v]) else None)"

text \<open>Incrementing a loop counter that is below its bound does not wrap around.\<close>

lemma unat_succ_less: "(i :: size_t) < m \<Longrightarrow> unat (i + 1) = Suc (unat i)"
  by unat_arith

lemma counter_decreases: "(i :: size_t) < m \<Longrightarrow> unat m - unat (i + 1) < unat m - unat i"
  by unat_arith

section \<open>The windowed correlation coefficient\<close>

text \<open>The five running sums of \<open>corrcoef\<close>.\<close>

record accum =
  s_x :: double
  s_y :: double
  s_xy :: double
  s_sq_x :: double
  s_sq_y :: double

text \<open>The body of the \<open>for\<close> loop of \<open>corrcoef\<close>, for the samples \<open>xi\<close> and \<open>yi\<close>.\<close>

definition accumulate :: "rounding \<Rightarrow> accum \<Rightarrow> double \<Rightarrow> double \<Rightarrow> accum" where
  "accumulate rnd s xi yi =
     \<lparr>s_x = dadd rnd (s_x s) xi,
      s_y = dadd rnd (s_y s) yi,
      s_xy = dadd rnd (s_xy s) (dmul rnd xi yi),
      s_sq_x = dadd rnd (s_sq_x s) (dmul rnd xi xi),
      s_sq_y = dadd rnd (s_sq_y s) (dmul rnd yi yi)\<rparr>"

text \<open>
  The loop \<open>for (size_t i = off_x, j = off_y; i < max_iter; i++, j++)\<close>.
\<close>

function corrcoef_loop ::
  "rounding \<Rightarrow> double list \<Rightarrow> size_t \<Rightarrow> size_t \<Rightarrow> size_t \<Rightarrow> accum \<Rightarrow> accum option" where
  "corrcoef_loop rnd data i j max_iter s =
     (if i < max_iter then
        (case rd data i of
           None \<Rightarrow> None
         | Some xi \<Rightarrow>
             (case rd data j of
                None \<Rightarrow> None
              | Some yi \<Rightarrow> corrcoef_loop rnd data (i + 1) (j + 1) max_iter (accumulate rnd s xi yi)))
      else Some s)"
  by pat_completeness auto
termination
  by (relation "measure (\<lambda>(rnd, data, i, j, max_iter, s). unat max_iter - unat i)")
     (simp_all add: counter_decreases)

declare corrcoef_loop.simps [simp del]

definition sums_zero :: accum where
  "sums_zero = \<lparr>s_x = Fin 0, s_y = Fin 0, s_xy = Fin 0, s_sq_x = Fin 0, s_sq_y = Fin 0\<rparr>"

text \<open>
  \<open>corrcoef\<close>. The diagnostic written to \<open>stderr\<close> before the sentinel is returned is
  not part of the model.
\<close>

definition corrcoef :: "rounding \<Rightarrow> double list \<Rightarrow> size_t \<Rightarrow> size_t \<Rightarrow> size_t \<Rightarrow> double option" where
  "corrcoef rnd data off_x off_y n =
     (let max_iter = off_x + n in
      case corrcoef_loop rnd data off_x off_y max_iter sums_zero of
        None \<Rightarrow> None
      | Some s \<Rightarrow>
          (let cov = dsub rnd (s_xy s) (ddiv rnd (dmul rnd (s_x s) (s_y s)) (double_of_size rnd n));
               ms_x = ddiv rnd (dmul rnd (s_x s) (s_x s)) (double_of_size rnd n);
               ms_y = ddiv rnd (dmul rnd (s_y s) (s_y s)) (double_of_size rnd n);
               p_std = dmul rnd (dsqrt rnd (dsub rnd (s_sq_x s) ms_x)) (dsqrt rnd (dsub rnd (s_sq_y s) ms_y))
           in if deq p_std (Fin 0) then Some (Fin (- 2)) else Some (ddiv rnd cov p_std)))"

section \<open>The correlogram builders\<close>

text \<open>
  How a loop nest is left: it ran to its end, or a \<open>return\<close> statement inside it was
  executed with the given code.
\<close>

datatype loop_exit = Completed | Returned int

text \<open>The value stored in a cell: \<open>r > 0.0F ? pow(r, 4) : 0.0F\<close>.\<close>

definition cell_value :: "power \<Rightarrow> double \<Rightarrow> double" where
  "cell_value pw r = (if dgt r (Fin 0) then pw r 4 else Fin 0)"

text \<open>The inner loop of \<open>correlogram_delay\<close>, over the window positions \<open>t\<close>.\<close>

function correlogram_delay_inner ::
  "rounding \<Rightarrow> power \<Rightarrow> double list \<Rightarrow> size_t list \<Rightarrow> size_t \<Rightarrow> size_t list \<Rightarrow> size_t \<Rightarrow> size_t \<Rightarrow> double list
     \<Rightarrow> (loop_exit \<times> double list) option" where
  "correlogram_delay_inner rnd pw sig delays wlen dims i t cgram =
     (case rd dims 1 of
        None \<Rightarrow> None
      | Some d1 \<Rightarrow>
          if t < d1 then
            (case rd delays i of
               None \<Rightarrow> None
             | Some dl \<Rightarrow>
                 (case corrcoef rnd sig t (t + dl) wlen of
                    None \<Rightarrow> None
                  | Some r \<Rightarrow>
                      if deq r (Fin (- 2)) then Some (Returned 0, cgram)
                      else
                        (case wr cgram (i * d1 + t) (cell_value pw r) of
                           None \<Rightarrow> None
                         | Some cgram' \<Rightarrow>
                             correlogram_delay_inner rnd pw sig delays wlen dims i (t + 1) cgram')))
          else Some (Completed, cgram))"
  by pat_completeness auto
termination
  by (relation "measure (\<lambda>(rnd, pw, sig, delays, wlen, dims, i, t, cgram). unat (dims ! 1) - unat t)")
     (auto simp: rd_def counter_decreases split: if_splits)

declare correlogram_delay_inner.simps [simp del]

text \<open>The outer loop of \<open>correlogram_delay\<close>, over the indices \<open>i\<close> of the delays.\<close>

function correlogram_delay_outer ::
  "rounding \<Rightarrow> power \<Rightarrow> double list \<Rightarrow> size_t list \<Rightarrow> size_t \<Rightarrow> size_t list \<Rightarrow> size_t \<Rightarrow> double list
     \<Rightarrow> (int \<times> double list) option" where
  "correlogram_delay_outer rnd pw sig delays wlen dims i cgram =
     (case rd dims 0 of
        None \<Rightarrow> None
      | Some d0 \<Rightarrow>
          if i < d0 then
            (case correlogram_delay_inner rnd pw sig delays wlen dims i 0 cgram of
               None \<Rightarrow> None
             | Some (Returned code, cgram') \<Rightarrow> Some (code, cgram')
             | Some (Completed, cgram') \<Rightarrow>
                 correlogram_delay_outer rnd pw sig delays wlen dims (i + 1) cgram')
          else Some (1, cgram))"
  by pat_completeness auto
termination
  by (relation "measure (\<lambda>(rnd, pw, sig, delays, wlen, dims, i, cgram). unat (dims ! 0) - unat i)")
     (auto simp: rd_def counter_decreases split: if_splits)

declare correlogram_delay_outer.simps [simp del]

text \<open>
  \<open>correlogram_delay\<close>: the return code and the output matrix as the call leaves it.
  The diagnostic written to \<open>stderr\<close> on failure is not part of the model.
\<close>

definition correlogram_delay ::
  "rounding \<Rightarrow> power \<Rightarrow> double list \<Rightarrow> size_t list \<Rightarrow> size_t \<Rightarrow> size_t list \<Rightarrow> double list
     \<Rightarrow> (int \<times> double list) option" where
  "correlogram_delay rnd pw sig delays wlen dims cgram =
     correlogram_delay_outer rnd pw sig delays wlen dims 0 cgram"

text \<open>The inner loop of \<open>correlogram\<close>, over the window positions \<open>off\<close>.\<close>

function correlogram_inner ::
  "rounding \<Rightarrow> power \<Rightarrow> double list \<Rightarrow> size_t \<Rightarrow> size_t list \<Rightarrow> size_t \<Rightarrow> size_t \<Rightarrow> double list
     \<Rightarrow> (loop_exit \<times> double list) option" where
  "correlogram_inner rnd pw sig wlen dims delay off cgram =
     (case rd dims 1 of
        None \<Rightarrow> None
      | Some d1 \<Rightarrow>
          if off < d1 then
            (case corrcoef rnd sig off (off + delay) wlen of
               None \<Rightarrow> None
             | Some r \<Rightarrow>
                 if deq r (Fin (- 2)) then Some (Returned 0, cgram)
                 else
                   (case wr cgram ((delay - 1) * d1 + off) (cell_value pw r) of
                      None \<Rightarrow> None
                    | Some cgram' \<Rightarrow> correlogram_inner rnd pw sig wlen dims delay (off + 1) cgram'))
          else Some (Completed, cgram))"
  by pat_completeness auto
termination
  by (relation "measure (\<lambda>(rnd, pw, sig, wlen, dims, delay, off, cgram). unat (dims ! 1) - unat off)")
     (auto simp: rd_def counter_decreases split: if_splits)

declare correlogram_inner.simps [simp del]

text \<open>The outer loop of \<open>correlogram\<close>, over the delays.\<close>

function correlogram_outer ::
  "rounding \<Rightarrow> power \<Rightarrow> double list \<Rightarrow> size_t \<Rightarrow> size_t list \<Rightarrow> size_t \<Rightarrow> double list
     \<Rightarrow> (int \<times> double list) option" where
  "correlogram_outer rnd pw sig wlen dims delay cgram =
     (case rd dims 0 of
        None \<Rightarrow> None
      | Some d0 \<Rightarrow>
          if delay < d0 then
            (case correlogram_inner rnd pw sig wlen dims delay 0 cgram of
               None \<Rightarrow> None
             | Some (Returned code, cgram') \<Rightarrow> Some (code, cgram')
             | Some (Completed, cgram') \<Rightarrow> correlogram_outer rnd pw sig wlen dims (delay + 1) cgram')
          else Some (1, cgram))"
  by pat_completeness auto
termination
  by (relation "measure (\<lambda>(rnd, pw, sig, wlen, dims, delay, cgram). unat (dims ! 0) - unat delay)")
     (auto simp: rd_def counter_decreases split: if_splits)

declare correlogram_outer.simps [simp del]

definition correlogram ::
  "rounding \<Rightarrow> power \<Rightarrow> double list \<Rightarrow> size_t \<Rightarrow> size_t list \<Rightarrow> double list
     \<Rightarrow> (int \<times> double list) option" where
  "correlogram rnd pw sig wlen dims cgram = correlogram_outer rnd pw sig wlen dims 1 cgram"

section \<open>Notions of the specification\<close>

text \<open>
  The sums of the specification, over the window of length \<open>n\<close> that starts at \<open>off\<close>
  in a buffer of real samples: \<open>win_sum\<close> is the sum of the samples, \<open>win_dot\<close> the sum
  of the products of the paired samples of two windows (the sum of squares when both
  windows are the same).
\<close>

definition win_sum :: "real list \<Rightarrow> nat \<Rightarrow> nat \<Rightarrow> real" where
  "win_sum xs off n = (\<Sum>k\<leftarrow>[0..<n]. xs ! (off + k))"

definition win_dot :: "real list \<Rightarrow> nat \<Rightarrow> nat \<Rightarrow> nat \<Rightarrow> real" where
  "win_dot xs off_x off_y n = (\<Sum>k\<leftarrow>[0..<n]. xs ! (off_x + k) * xs ! (off_y + k))"

text \<open>
  The terms of the single-pass Pearson formula as the specification writes them:
  \<open>cov\<close>, the mean-square term of a window, and \<open>p_std\<close>.
\<close>

definition pearson_cov :: "real list \<Rightarrow> nat \<Rightarrow> nat \<Rightarrow> nat \<Rightarrow> real" where
  "pearson_cov xs off_x off_y n =
     win_dot xs off_x off_y n - win_sum xs off_x n * win_sum xs off_y n / real n"

definition mean_square :: "real list \<Rightarrow> nat \<Rightarrow> nat \<Rightarrow> real" where
  "mean_square xs off n = (win_sum xs off n)\<^sup>2 / real n"

definition pearson_p_std :: "real list \<Rightarrow> nat \<Rightarrow> nat \<Rightarrow> nat \<Rightarrow> real" where
  "pearson_p_std xs off_x off_y n =
     sqrt (win_dot xs off_x off_x n - mean_square xs off_x n)
       * sqrt (win_dot xs off_y off_y n - mean_square xs off_y n)"

text \<open>
  The cells of a builder in iteration order: \<open>fill \<rho> ks c\<close> visits the row-major indices
  \<open>ks\<close> in turn, where \<open>\<rho> k\<close> is the coefficient of cell \<open>k\<close>, stops at the first
  sentinel and stores the cell value otherwise. The loops of both builders are shown
  to compute it.
\<close>

fun fill :: "power \<Rightarrow> (nat \<Rightarrow> double) \<Rightarrow> nat list \<Rightarrow> double list \<Rightarrow> loop_exit \<times> double list" where
  "fill pw \<rho> [] c = (Completed, c)"
| "fill pw \<rho> (k # ks) c =
     (if deq (\<rho> k) (Fin (- 2)) then (Returned 0, c)
      else fill pw \<rho> ks (c[k := cell_value pw (\<rho> k)]))"

text \<open>The return code of a builder whose loop nest was left in the given way.\<close>

fun finish :: "loop_exit \<times> double list \<Rightarrow> int \<times> double list" where
  "finish (Completed, c) = (1, c)"
| "finish (Returned code, c) = (code, c)"

text \<open>
  What the caller of \<open>correlogram_delay\<close> guarantees: a delay for every row, every
  window inside the signal buffer, room for \<open>dims[0] * dims[1]\<close> cells in the output
  matrix, and buffers that fit the address space.
\<close>

definition delay_call_ok ::
  "double list \<Rightarrow> size_t list \<Rightarrow> size_t \<Rightarrow> size_t \<Rightarrow> size_t \<Rightarrow> double list \<Rightarrow> bool" where
  "delay_call_ok sig delays wlen D T cgram \<longleftrightarrow>
     unat D \<le> length delays
     \<and> (\<forall>i<unat D. \<forall>t<unat T. t + unat (delays ! i) + unat wlen \<le> length sig)
     \<and> length sig < 2 ^ 64
     \<and> unat D * unat T \<le> length cgram
     \<and> length cgram < 2 ^ 64"

text \<open>The coefficient of the cell with the row-major index \<open>k\<close>.\<close>

definition cell_coef ::
  "rounding \<Rightarrow> double list \<Rightarrow> size_t list \<Rightarrow> size_t \<Rightarrow> nat \<Rightarrow> nat \<Rightarrow> double" where
  "cell_coef rnd sig delays wlen T k =
     the (corrcoef rnd sig (of_nat (k mod T)) (of_nat (k mod T) + delays ! (k div T)) wlen)"

text \<open>
  What the caller of \<open>correlogram\<close> guarantees: every window of the delays
  \<open>1, ..., dims[0] - 1\<close> inside the signal buffer, room for \<open>(dims[0] - 1) * dims[1]\<close>
  cells in the output matrix, and buffers that fit the address space.
\<close>

definition range_call_ok ::
  "double list \<Rightarrow> size_t \<Rightarrow> size_t \<Rightarrow> size_t \<Rightarrow> double list \<Rightarrow> bool" where
  "range_call_ok sig wlen D T cgram \<longleftrightarrow>
     (\<forall>d t. 1 \<le> d \<and> d < unat D \<and> t < unat T \<longrightarrow> t + d + unat wlen \<le> length sig)
     \<and> length sig < 2 ^ 64
     \<and> (unat D - 1) * unat T \<le> length cgram
     \<and> length cgram < 2 ^ 64"

text \<open>Finite values of \<open>double\<close>, and the real number a finite value stands for.\<close>

fun is_fin :: "double \<Rightarrow> bool" where
  "is_fin (Fin a) = True"
| "is_fin _ = False"

fun fin_val :: "double \<Rightarrow> real" where
  "fin_val (Fin a) = a"
| "fin_val _ = 0"

text \<open>
  A running sum and the running sum of squares of a window in which a sample that is
  not finite has been met: the sum is not finite, the sum of squares is \<open>+inf\<close> or NaN.
\<close>

definition spoiled :: "double \<Rightarrow> double \<Rightarrow> bool" where
  "spoiled s sq \<longleftrightarrow> \<not> is_fin s \<and> (sq = PInf \<or> sq = NaN)"

text \<open>The window of length \<open>n\<close> that starts at \<open>off\<close> in a buffer.\<close>

definition window :: "'a list \<Rightarrow> nat \<Rightarrow> nat \<Rightarrow> 'a list" where
  "window buf off n = take n (drop off buf)"

text \<open>
  The sums of the specification as the arithmetic of the program evaluates them: a sum
  starts from \<open>0.0\<close> and takes its terms from left to right, and every addition and every
  product is rounded. \<open>fl_sum\<close> is the sum of the samples of a window, \<open>fl_dot\<close> the sum of
  the products of the paired samples of two windows.
\<close>

definition fl_sum :: "rounding \<Rightarrow> double list \<Rightarrow> double" where
  "fl_sum rnd xs = foldl (dadd rnd) (Fin 0) xs"

definition fl_dot :: "rounding \<Rightarrow> double list \<Rightarrow> double list \<Rightarrow> double" where
  "fl_dot rnd xs ys = fl_sum rnd (map2 (dmul rnd) xs ys)"

text \<open>
  The terms of the single-pass formula of the specification in the arithmetic of the
  program: \<open>cov\<close>, the mean-square term and the variance term of a window, and \<open>p_std\<close>.
  The window length \<open>n\<close> is converted to \<open>double\<close> as the code converts it.
\<close>

definition fl_cov :: "rounding \<Rightarrow> double list \<Rightarrow> double list \<Rightarrow> size_t \<Rightarrow> double" where
  "fl_cov rnd xs ys n =
     dsub rnd (fl_dot rnd xs ys) (ddiv rnd (dmul rnd (fl_sum rnd xs) (fl_sum rnd ys)) (double_of_size rnd n))"

definition fl_mean_square :: "rounding \<Rightarrow> double list \<Rightarrow> size_t \<Rightarrow> double" where
  "fl_mean_square rnd xs n = ddiv rnd (dmul rnd (fl_sum rnd xs) (fl_sum rnd xs)) (double_of_size rnd n)"

definition fl_variance :: "rounding \<Rightarrow> double list \<Rightarrow> size_t \<Rightarrow> double" where
  "fl_variance rnd xs n = dsub rnd (fl_dot rnd xs xs) (fl_mean_square rnd xs n)"

definition fl_p_std :: "rounding \<Rightarrow> double list \<Rightarrow> double list \<Rightarrow> size_t \<Rightarrow> double" where
  "fl_p_std rnd xs ys n = dmul rnd (dsqrt rnd (fl_variance rnd xs n)) (dsqrt rnd (fl_variance rnd ys n))"

text \<open>A rounding that commutes with negation, as rounding to the nearest value does.\<close>

definition odd_rounding :: "rounding \<Rightarrow> bool" where
  "odd_rounding rnd \<longleftrightarrow> (\<forall>x. rnd (- x) = dneg (rnd x))"

text \<open>The values of \<open>double\<close> that are not negative: a finite value from 0 on, or \<open>+inf\<close>.\<close>

fun nonneg :: "double \<Rightarrow> bool" where
  "nonneg (Fin v) = (0 \<le> v)"
| "nonneg PInf = True"
| "nonneg _ = False"

text \<open>
  A \<open>pow\<close> of the library whose fourth power of a positive base is not negative (and not
  NaN).
\<close>

definition pow_nonneg :: "power \<Rightarrow> bool" where
  "pow_nonneg pw \<longleftrightarrow> (\<forall>r. dgt r (Fin 0) \<longrightarrow> nonneg (pw r 4))"

section \<open>Auxiliary facts\<close>

lemma unat_add_of_nat:
  "unat (a :: size_t) + k < 2 ^ 64 \<Longrightarrow> unat (a + of_nat k) = unat a + k"
  by (simp add: unat_word_ariths unat_of_nat)

lemma corrcoef_loop_fold:
  assumes "k \<le> n" "unat off_x + n \<le> length data" "unat off_y + n \<le> length data"
    and "length data < 2 ^ 64"
  shows "corrcoef_loop rnd data (off_x + of_nat k) (off_y + of_nat k) (off_x + of_nat n) s
       = Some (fold (\<lambda>m s. accumulate rnd s (data ! (unat off_x + m)) (data ! (unat off_y + m)))
                 [k..<n] s)"
  using assms
proof (induction "n - k" arbitrary: k s)
  case 0
  then have "k = n" by simp
  then show ?case by (subst corrcoef_loop.simps) simp
next
  case (Suc d)
  then have kn: "k < n" by simp
  have ux: "unat (off_x + of_nat k) = unat off_x + k"
    using Suc.prems kn by (intro unat_add_of_nat) simp
  have uy: "unat (off_y + of_nat k) = unat off_y + k"
    using Suc.prems kn by (intro unat_add_of_nat) simp
  have un: "unat (off_x + of_nat n) = unat off_x + n"
    using Suc.prems by (intro unat_add_of_nat) simp
  have lt: "off_x + of_nat k < off_x + of_nat n"
    using kn by (simp add: word_less_nat_alt ux un)
  have rx: "rd data (off_x + of_nat k) = Some (data ! (unat off_x + k))"
    using Suc.prems kn by (simp add: rd_def ux)
  have ry: "rd data (off_y + of_nat k) = Some (data ! (unat off_y + k))"
    using Suc.prems kn by (simp add: rd_def uy)
  have step: "corrcoef_loop rnd data (off_x + of_nat (Suc k)) (off_y + of_nat (Suc k)) (off_x + of_nat n) s'
       = Some (fold (\<lambda>m s. accumulate rnd s (data ! (unat off_x + m)) (data ! (unat off_y + m)))
                 [Suc k..<n] s')" for s'
    using Suc.hyps(2) Suc.prems kn by (intro Suc.hyps(1)) simp_all
  have ex: "off_x + of_nat k + 1 = off_x + of_nat (Suc k)"
    and ey: "off_y + of_nat k + 1 = off_y + of_nat (Suc k)"
    by simp_all
  show ?case
    by (subst corrcoef_loop.simps) (simp only: lt if_True rx ry option.case ex ey step upt_conv_Cons [OF kn] fold_simps)
qed

lemma sum_sq_zero_imp:
  fixes a :: "nat \<Rightarrow> real"
  assumes "finite A" "(\<Sum>i\<in>A. (a i)\<^sup>2) = 0" "i \<in> A"
  shows "a i = 0"
proof -
  have "\<forall>i\<in>A. (a i)\<^sup>2 = 0"
    using assms(1,2) by (subst (asm) sum_nonneg_eq_0_iff) auto
  with assms(3) show ?thesis by simp
qed

lemma cauchy_schwarz_sum:
  fixes a b :: "nat \<Rightarrow> real"
  assumes fin: "finite A"
  shows "(\<Sum>i\<in>A. a i * b i)\<^sup>2 \<le> (\<Sum>i\<in>A. (a i)\<^sup>2) * (\<Sum>i\<in>A. (b i)\<^sup>2)"
proof -
  define P where "P = (\<Sum>i\<in>A. (a i)\<^sup>2)"
  define Q where "Q = (\<Sum>i\<in>A. (b i)\<^sup>2)"
  define R where "R = (\<Sum>i\<in>A. a i * b i)"
  have P0: "0 \<le> P" unfolding P_def by (simp add: sum_nonneg)
  have quad: "0 \<le> t\<^sup>2 * P - 2 * t * R + Q" for t
  proof -
    have "(\<Sum>i\<in>A. (a i * t - b i)\<^sup>2) = (\<Sum>i\<in>A. t\<^sup>2 * (a i)\<^sup>2 - 2 * t * (a i * b i) + (b i)\<^sup>2)"
      by (rule sum.cong) (simp_all add: power2_diff power_mult_distrib algebra_simps)
    also have "\<dots> = t\<^sup>2 * P - 2 * t * R + Q"
      by (simp add: sum.distrib sum_subtractf sum_distrib_left P_def Q_def R_def)
    finally have "(\<Sum>i\<in>A. (a i * t - b i)\<^sup>2) = t\<^sup>2 * P - 2 * t * R + Q" .
    moreover have "0 \<le> (\<Sum>i\<in>A. (a i * t - b i)\<^sup>2)" by (simp add: sum_nonneg)
    ultimately show ?thesis by simp
  qed
  show ?thesis
  proof (cases "P = 0")
    case True
    then have "\<forall>i\<in>A. a i = 0"
      using sum_sq_zero_imp [OF fin, of a] by (simp add: P_def)
    then have "R = 0" by (simp add: R_def)
    with True show ?thesis by (simp add: P_def R_def)
  next
    case False
    with P0 have Ppos: "0 < P" by simp
    from quad [of "R / P"] have "0 \<le> (R / P)\<^sup>2 * P - 2 * (R / P) * R + Q" .
    also have "(R / P)\<^sup>2 * P - 2 * (R / P) * R + Q = Q - R\<^sup>2 / P"
      using Ppos by (simp add: field_simps power2_eq_square)
    finally have "R\<^sup>2 / P \<le> Q" by simp
    then have "R\<^sup>2 \<le> Q * P" using Ppos by (simp add: pos_divide_le_eq)
    then show ?thesis by (simp add: P_def Q_def R_def mult.commute)
  qed
qed

lemma centered_product_sum:
  fixes f g :: "nat \<Rightarrow> real"
  assumes "finite A" "card A = n" "0 < n"
  shows "(\<Sum>i\<in>A. (f i - (\<Sum>i\<in>A. f i) / real n) * (g i - (\<Sum>i\<in>A. g i) / real n))
       = (\<Sum>i\<in>A. f i * g i) - (\<Sum>i\<in>A. f i) * (\<Sum>i\<in>A. g i) / real n"
proof -
  define F where "F = (\<Sum>i\<in>A. f i)"
  define G where "G = (\<Sum>i\<in>A. g i)"
  have "(\<Sum>i\<in>A. (f i - F / real n) * (g i - G / real n))
      = (\<Sum>i\<in>A. f i * g i - (G / real n) * f i - (F / real n) * g i + (F / real n) * (G / real n))"
    by (rule sum.cong) (simp_all add: algebra_simps)
  also have "\<dots> = (\<Sum>i\<in>A. f i * g i) - (G / real n) * F - (F / real n) * G + real n * ((F / real n) * (G / real n))"
    using assms by (simp add: sum.distrib sum_subtractf sum_distrib_left F_def G_def)
  also have "\<dots> = (\<Sum>i\<in>A. f i * g i) - F * G / real n"
    using assms(3) by (simp add: field_simps)
  finally show ?thesis by (simp add: F_def G_def)
qed

lemma fold_accumulate_Fin:
  assumes "\<forall>m\<in>set ms. ox + m < length xs \<and> oy + m < length xs"
  shows "fold (\<lambda>m s. accumulate exact s (map Fin xs ! (ox + m)) (map Fin xs ! (oy + m))) ms
           \<lparr>s_x = Fin a, s_y = Fin b, s_xy = Fin c, s_sq_x = Fin d, s_sq_y = Fin e\<rparr>
       = \<lparr>s_x = Fin (a + (\<Sum>m\<leftarrow>ms. xs ! (ox + m))),
          s_y = Fin (b + (\<Sum>m\<leftarrow>ms. xs ! (oy + m))),
          s_xy = Fin (c + (\<Sum>m\<leftarrow>ms. xs ! (ox + m) * xs ! (oy + m))),
          s_sq_x = Fin (d + (\<Sum>m\<leftarrow>ms. xs ! (ox + m) * xs ! (ox + m))),
          s_sq_y = Fin (e + (\<Sum>m\<leftarrow>ms. xs ! (oy + m) * xs ! (oy + m)))\<rparr>"
  using assms
  by (induction ms arbitrary: a b c d e) (simp_all add: accumulate_def add.assoc)

lemma corrcoef_loop_Fin:
  assumes "unat off_x + unat n \<le> length xs" "unat off_y + unat n \<le> length xs"
    and "length xs < 2 ^ 64"
  shows "corrcoef_loop exact (map Fin xs) off_x off_y (off_x + n) sums_zero
       = Some \<lparr>s_x = Fin (win_sum xs (unat off_x) (unat n)),
               s_y = Fin (win_sum xs (unat off_y) (unat n)),
               s_xy = Fin (win_dot xs (unat off_x) (unat off_y) (unat n)),
               s_sq_x = Fin (win_dot xs (unat off_x) (unat off_x) (unat n)),
               s_sq_y = Fin (win_dot xs (unat off_y) (unat off_y) (unat n))\<rparr>"
proof -
  have "corrcoef_loop exact (map Fin xs) (off_x + of_nat 0) (off_y + of_nat 0) (off_x + of_nat (unat n)) sums_zero
      = Some (fold (\<lambda>m s. accumulate exact s (map Fin xs ! (unat off_x + m)) (map Fin xs ! (unat off_y + m)))
                 [0..<unat n] sums_zero)"
    using assms by (intro corrcoef_loop_fold) simp_all
  moreover have "\<forall>m\<in>set [0..<unat n]. unat off_x + m < length xs \<and> unat off_y + m < length xs"
    using assms by auto
  ultimately show ?thesis
    by (simp add: sums_zero_def fold_accumulate_Fin win_sum_def win_dot_def)
qed

lemma win_sum_set: "win_sum xs off n = (\<Sum>k = 0..<n. xs ! (off + k))"
  by (simp add: win_sum_def interv_sum_list_conv_sum_set_nat)

lemma win_dot_set: "win_dot xs ox oy n = (\<Sum>k = 0..<n. xs ! (ox + k) * xs ! (oy + k))"
  by (simp add: win_dot_def interv_sum_list_conv_sum_set_nat)

lemma pearson_cov_centered:
  assumes "0 < n"
  shows "pearson_cov xs ox oy n
       = (\<Sum>k = 0..<n. (xs ! (ox + k) - win_sum xs ox n / real n) * (xs ! (oy + k) - win_sum xs oy n / real n))"
  using centered_product_sum [of "{0..<n}" n "\<lambda>k. xs ! (ox + k)" "\<lambda>k. xs ! (oy + k)"] assms
  by (simp add: pearson_cov_def win_sum_set win_dot_set)

lemma variance_eq_cov:
  "win_dot xs off off n - mean_square xs off n = pearson_cov xs off off n"
  by (simp add: pearson_cov_def mean_square_def power2_eq_square)

lemma variance_nonneg:
  "0 \<le> win_dot xs off off n - mean_square xs off n"
proof (cases "n = 0")
  case True
  then show ?thesis by (simp add: win_dot_def mean_square_def)
next
  case False
  then show ?thesis
    by (simp only: variance_eq_cov) (simp add: pearson_cov_centered sum_nonneg)
qed

lemma pearson_cov_sq_le:
  assumes "0 < n"
  shows "(pearson_cov xs ox oy n)\<^sup>2 \<le> pearson_cov xs ox ox n * pearson_cov xs oy oy n"
  using cauchy_schwarz_sum [of "{0..<n}"
      "\<lambda>k. xs ! (ox + k) - win_sum xs ox n / real n" "\<lambda>k. xs ! (oy + k) - win_sum xs oy n / real n"]
    assms
  by (simp add: pearson_cov_centered power2_eq_square)

lemma pearson_p_std_nonneg: "0 \<le> pearson_p_std xs ox oy n"
  unfolding pearson_p_std_def
  by (intro mult_nonneg_nonneg) (simp_all only: real_sqrt_ge_0_iff variance_nonneg)

lemma abs_cov_le_p_std:
  assumes "0 < n"
  shows "\<bar>pearson_cov xs ox oy n\<bar> \<le> pearson_p_std xs ox oy n"
proof -
  have "pearson_p_std xs ox oy n = sqrt (pearson_cov xs ox ox n * pearson_cov xs oy oy n)"
    by (simp add: pearson_p_std_def variance_eq_cov real_sqrt_mult)
  moreover have "\<bar>pearson_cov xs ox oy n\<bar> = sqrt ((pearson_cov xs ox oy n)\<^sup>2)"
    by simp
  ultimately show ?thesis
    using pearson_cov_sq_le [OF assms, of xs ox oy] by (simp only: real_sqrt_le_iff)
qed

lemma corrcoef_Fin:
  assumes "unat off_x + unat n \<le> length xs" "unat off_y + unat n \<le> length xs"
    and "length xs < 2 ^ 64" and "0 < n"
  shows "corrcoef exact (map Fin xs) off_x off_y n
       = Some (if pearson_p_std xs (unat off_x) (unat off_y) (unat n) = 0 then Fin (- 2)
               else Fin (pearson_cov xs (unat off_x) (unat off_y) (unat n)
                         / pearson_p_std xs (unat off_x) (unat off_y) (unat n)))"
proof -
  have "unat n \<noteq> 0" using assms(4) by (simp add: unat_eq_0)
  then have n0: "real (unat n) \<noteq> 0" by (simp only: of_nat_eq_0_iff not_False_eq_True)
  have vx: "\<not> win_dot xs (unat off_x) (unat off_x) (unat n) - mean_square xs (unat off_x) (unat n) < 0"
    and vy: "\<not> win_dot xs (unat off_y) (unat off_y) (unat n) - mean_square xs (unat off_y) (unat n) < 0"
    using variance_nonneg by (simp_all add: not_less)
  show ?thesis
    using n0 vx vy
    by (simp add: corrcoef_def corrcoef_loop_Fin [OF assms(1-3)] double_of_size_def dsub_def Let_def
        pearson_cov_def pearson_p_std_def mean_square_def power2_eq_square)
qed

lemmas corrcoef_eval =
  corrcoef_def corrcoef_loop.simps rd_def accumulate_def sums_zero_def double_of_size_def dsub_def

lemmas pearson_eval =
  win_sum_def win_dot_def pearson_p_std_def pearson_cov_def mean_square_def upt_rec

lemma p_std_self: "pearson_p_std xs off off n = pearson_cov xs off off n"
  using variance_nonneg [of xs off n]
  by (simp add: pearson_p_std_def variance_eq_cov)

lemma corrcoef_range:
  assumes "0 < n" "pearson_p_std xs ox oy n \<noteq> 0"
  shows "- 1 \<le> pearson_cov xs ox oy n / pearson_p_std xs ox oy n"
    and "pearson_cov xs ox oy n / pearson_p_std xs ox oy n \<le> 1"
proof -
  have pos: "0 < pearson_p_std xs ox oy n"
    using pearson_p_std_nonneg [of xs ox oy n] assms(2) by simp
  have le: "\<bar>pearson_cov xs ox oy n\<bar> \<le> pearson_p_std xs ox oy n"
    by (rule abs_cov_le_p_std [OF assms(1)])
  show "- 1 \<le> pearson_cov xs ox oy n / pearson_p_std xs ox oy n"
    using pos le by (simp add: pos_le_divide_eq)
  show "pearson_cov xs ox oy n / pearson_p_std xs ox oy n \<le> 1"
    using pos le by (simp add: pos_divide_le_eq)
qed

lemma negated_window_sums:
  assumes "\<forall>k<n. xs ! (oy + k) = - xs ! (ox + k)"
  shows "win_sum xs oy n = - win_sum xs ox n"
    and "win_dot xs ox oy n = - win_dot xs ox ox n"
    and "win_dot xs oy oy n = win_dot xs ox ox n"
  using assms by (simp_all add: win_sum_set win_dot_set sum_negf)

lemma corrcoef_in_bounds:
  assumes "unat off_x + unat n \<le> length data" and "unat off_y + unat n \<le> length data"
    and "length data < 2 ^ 64"
  shows "\<exists>r. corrcoef rnd data off_x off_y n = Some r"
proof -
  have "corrcoef_loop rnd data (off_x + of_nat 0) (off_y + of_nat 0) (off_x + of_nat (unat n)) sums_zero
      = Some (fold (\<lambda>m s. accumulate rnd s (data ! (unat off_x + m)) (data ! (unat off_y + m)))
                 [0..<unat n] sums_zero)"
    using assms by (intro corrcoef_loop_fold) simp_all
  then show ?thesis
    by (simp add: corrcoef_def Let_def)
qed

lemma deq_sentinel: "deq r (Fin (- 2)) \<longleftrightarrow> r = Fin (- 2)"
  by (cases r) simp_all

lemma fill_append:
  "fill pw \<rho> (ks @ ls) c =
     (case fill pw \<rho> ks c of (Completed, c') \<Rightarrow> fill pw \<rho> ls c' | (Returned code, c') \<Rightarrow> (Returned code, c'))"
  by (induction ks arbitrary: c) simp_all

lemma length_fill: "length (snd (fill pw \<rho> ks c)) = length c"
  by (induction ks arbitrary: c) simp_all

lemma unat_mult_add:
  assumes "unat (i :: size_t) * unat (T :: size_t) + t < 2 ^ 64"
  shows "unat (i * T + of_nat t) = unat i * unat T + t"
proof -
  have "unat i * unat T < 2 ^ 64" using assms by simp
  then have "unat (i * T) = unat i * unat T"
    by (simp add: unat_word_ariths)
  with assms show ?thesis by (simp add: unat_add_of_nat)
qed

lemma correlogram_delay_inner_fill:
  assumes d1: "rd dims 1 = Some T"
    and dl: "rd delays i = Some dl"
    and cells: "\<forall>t<unat T. corrcoef rnd sig (of_nat t) (of_nat t + dl) wlen = Some (\<rho> (unat i * unat T + t))"
    and room: "unat i * unat T + unat T \<le> length cgram" "length cgram < 2 ^ 64"
    and t0: "t0 \<le> unat T"
  shows "correlogram_delay_inner rnd pw sig delays wlen dims i (of_nat t0) cgram
       = Some (fill pw \<rho> [unat i * unat T + t0..<unat i * unat T + unat T] cgram)"
  using room t0
proof (induction "unat T - t0" arbitrary: t0 cgram)
  case 0
  then have e: "t0 = unat T" by simp
  then have "\<not> (of_nat t0 :: size_t) < T" by simp
  then show ?case
    by (subst correlogram_delay_inner.simps) (simp add: d1 e)
next
  case (Suc d)
  then have lt: "t0 < unat T" by simp
  have T64: "unat T < 2 ^ 64" using Suc.prems by simp
  have ut: "unat (of_nat t0 :: size_t) = t0"
    using lt T64 by (simp add: unat_of_nat)
  have wlt: "(of_nat t0 :: size_t) < T"
    using lt by (simp add: word_less_nat_alt ut)
  have r: "corrcoef rnd sig (of_nat t0) (of_nat t0 + dl) wlen = Some (\<rho> (unat i * unat T + t0))"
    using cells lt by simp
  have idx: "unat (i * T + of_nat t0) = unat i * unat T + t0"
    using Suc.prems lt by (intro unat_mult_add) simp
  have w: "wr cgram (i * T + of_nat t0) v = Some (cgram[unat i * unat T + t0 := v])" for v
    using Suc.prems lt by (simp add: wr_def idx)
  have nxt: "(of_nat t0 :: size_t) + 1 = of_nat (Suc t0)" by simp
  have IH: "correlogram_delay_inner rnd pw sig delays wlen dims i (of_nat (Suc t0)) c'
       = Some (fill pw \<rho> [unat i * unat T + Suc t0..<unat i * unat T + unat T] c')"
    if "length c' = length cgram" for c'
    using Suc.hyps(2) Suc.prems lt that by (intro Suc.hyps(1)) simp_all
  have up: "[unat i * unat T + t0..<unat i * unat T + unat T]
      = (unat i * unat T + t0) # [unat i * unat T + Suc t0..<unat i * unat T + unat T]"
    using lt by (simp add: upt_conv_Cons)
  show ?case
    by (subst correlogram_delay_inner.simps)
       (simp only: d1 dl option.case wlt if_True r w nxt up fill.simps IH length_list_update
          split: if_split, simp)
qed

lemma upt_split: "a \<le> b \<Longrightarrow> b \<le> c \<Longrightarrow> [a..<c] = [a..<b] @ [b..<c]"
  by (metis le_Suc_ex upt_add_eq_append)

lemma correlogram_delay_outer_fill:
  assumes dims: "dims = [D, T]"
    and dlen: "unat D \<le> length delays"
    and cells: "\<forall>i<unat D. \<forall>t<unat T.
        corrcoef rnd sig (of_nat t) (of_nat t + delays ! i) wlen = Some (\<rho> (i * unat T + t))"
    and room: "unat D * unat T \<le> length cgram" "length cgram < 2 ^ 64"
    and i0: "i0 \<le> unat D"
  shows "correlogram_delay_outer rnd pw sig delays wlen dims (of_nat i0) cgram
       = Some (finish (fill pw \<rho> [i0 * unat T..<unat D * unat T] cgram))"
  using room i0
proof (induction "unat D - i0" arbitrary: i0 cgram)
  case 0
  then have e: "i0 = unat D" by simp
  then have "\<not> (of_nat i0 :: size_t) < D" by simp
  then show ?case
    by (subst correlogram_delay_outer.simps) (simp add: dims rd_def e)
next
  case (Suc d)
  then have lt: "i0 < unat D" by simp
  have D64: "unat D < 2 ^ 64" using unsigned_less [of D, where ?'a = nat] by simp
  have ui: "unat (of_nat i0 :: size_t) = i0"
    using lt D64 by (simp add: unat_of_nat)
  have wlt: "(of_nat i0 :: size_t) < D"
    using lt by (simp add: word_less_nat_alt ui)
  have d0: "rd dims 0 = Some D" and d1: "rd dims 1 = Some T"
    by (simp_all add: dims rd_def)
  have dl: "rd delays (of_nat i0) = Some (delays ! i0)"
    using lt dlen by (simp add: rd_def ui)
  have le: "i0 * unat T + unat T \<le> unat D * unat T"
  proof -
    have "Suc i0 * unat T \<le> unat D * unat T"
      using lt by (intro mult_le_mono1) simp
    then show ?thesis by (simp add: add.commute)
  qed
  have row: "\<forall>t<unat T. corrcoef rnd sig (of_nat t) (of_nat t + delays ! i0) wlen
      = Some (\<rho> (unat (of_nat i0 :: size_t) * unat T + t))"
    using cells lt by (simp add: ui)
  have inner: "correlogram_delay_inner rnd pw sig delays wlen dims (of_nat i0) (of_nat 0) cgram
      = Some (fill pw \<rho> [unat (of_nat i0 :: size_t) * unat T + 0..<unat (of_nat i0 :: size_t) * unat T + unat T] cgram)"
    using Suc.prems le by (intro correlogram_delay_inner_fill [OF d1 dl row]) (simp_all add: ui)
  then have inner': "correlogram_delay_inner rnd pw sig delays wlen dims (of_nat i0) 0 cgram
      = Some (fill pw \<rho> [i0 * unat T..<i0 * unat T + unat T] cgram)"
    by (simp add: ui)
  have split: "[i0 * unat T..<unat D * unat T]
      = [i0 * unat T..<i0 * unat T + unat T] @ [i0 * unat T + unat T..<unat D * unat T]"
    using le by (intro upt_split) simp_all
  have nxt: "(of_nat i0 :: size_t) + 1 = of_nat (Suc i0)" by simp
  have IH: "correlogram_delay_outer rnd pw sig delays wlen dims (of_nat (Suc i0)) c'
       = Some (finish (fill pw \<rho> [Suc i0 * unat T..<unat D * unat T] c'))"
    if "length c' = length cgram" for c'
    using Suc.hyps(2) Suc.prems lt that by (intro Suc.hyps(1)) simp_all
  obtain ex c' where res: "fill pw \<rho> [i0 * unat T..<i0 * unat T + unat T] cgram = (ex, c')"
    by (cases "fill pw \<rho> [i0 * unat T..<i0 * unat T + unat T] cgram")
  have len: "length c' = length cgram"
    using length_fill [of pw \<rho> "[i0 * unat T..<i0 * unat T + unat T]" cgram] by (simp add: res)
  have whole: "fill pw \<rho> [i0 * unat T..<unat D * unat T] cgram
      = (case ex of Completed \<Rightarrow> fill pw \<rho> [Suc i0 * unat T..<unat D * unat T] c'
         | Returned code \<Rightarrow> (Returned code, c'))"
  proof -
    have "Suc i0 * unat T = i0 * unat T + unat T" by simp
    then show ?thesis
      by (simp only: split fill_append res prod.case)
  qed
  show ?case
  proof (cases ex)
    case Completed
    have "correlogram_delay_outer rnd pw sig delays wlen dims (of_nat i0) cgram
        = correlogram_delay_outer rnd pw sig delays wlen dims (of_nat (Suc i0)) c'"
      by (subst correlogram_delay_outer.simps)
         (simp only: d0 option.case wlt if_True inner' res Completed prod.case loop_exit.case nxt)
    then show ?thesis
      by (simp only: IH [OF len] whole Completed loop_exit.case)
  next
    case (Returned code)
    have "correlogram_delay_outer rnd pw sig delays wlen dims (of_nat i0) cgram = Some (code, c')"
      by (subst correlogram_delay_outer.simps)
         (simp only: d0 option.case wlt if_True inner' res Returned prod.case loop_exit.case)
    then show ?thesis
      by (simp only: whole Returned loop_exit.case finish.simps)
  qed
qed

lemma correlogram_delay_fill:
  assumes "dims = [D, T]"
    and "unat D \<le> length delays"
    and "\<forall>i<unat D. \<forall>t<unat T.
        corrcoef rnd sig (of_nat t) (of_nat t + delays ! i) wlen = Some (\<rho> (i * unat T + t))"
    and "unat D * unat T \<le> length cgram" "length cgram < 2 ^ 64"
  shows "correlogram_delay rnd pw sig delays wlen dims cgram
       = Some (finish (fill pw \<rho> [0..<unat D * unat T] cgram))"
  using correlogram_delay_outer_fill [OF assms, of 0]
  by (simp add: correlogram_delay_def)

lemma length_fold_update: "length (fold (\<lambda>k c. c[k := f k]) ks c) = length c"
  by (induction ks arbitrary: c) simp_all

lemma nth_fold_update:
  "j < length c \<Longrightarrow> fold (\<lambda>k c. c[k := f k]) ks c ! j = (if j \<in> set ks then f j else c ! j)"
proof (induction ks arbitrary: c)
  case Nil
  then show ?case by simp
next
  case (Cons k ks)
  then show ?case by (simp add: nth_list_update)
qed

lemma fill_takeWhile:
  "fill pw \<rho> ks c =
     (if \<forall>k\<in>set ks. \<rho> k \<noteq> Fin (- 2) then Completed else Returned 0,
      fold (\<lambda>k c. c[k := cell_value pw (\<rho> k)]) (takeWhile (\<lambda>k. \<rho> k \<noteq> Fin (- 2)) ks) c)"
  by (induction ks arbitrary: c) (simp_all add: deq_sentinel)

lemma takeWhile_upt_first:
  assumes "p < b" and "\<forall>k<p. P k" and "\<not> P p"
  shows "takeWhile P [0..<b] = [0..<p]"
proof -
  have split: "[0..<b] = [0..<p] @ p # [Suc p..<b]"
    using assms(1) by (metis less_imp_le_nat upt_conv_Cons upt_split zero_le)
  have pre: "\<And>k. k \<in> set [0..<p] \<Longrightarrow> P k" using assms(2) by simp
  have "takeWhile P ([0..<p] @ p # [Suc p..<b]) = [0..<p] @ takeWhile P (p # [Suc p..<b])"
    using pre by (rule takeWhile_append2)
  also have "takeWhile P (p # [Suc p..<b]) = []"
    using assms(3) by simp
  finally show ?thesis by (simp only: split append_Nil2)
qed

lemma fill_success:
  assumes "\<forall>k<N. \<rho> k \<noteq> Fin (- 2)"
  shows "fill pw \<rho> [0..<N] c = (Completed, fold (\<lambda>k c. c[k := cell_value pw (\<rho> k)]) [0..<N] c)"
proof -
  have all: "takeWhile (\<lambda>k. \<rho> k \<noteq> Fin (- 2)) [0..<N] = [0..<N]"
    using assms by (intro takeWhile_eq_all_conv [THEN iffD2]) simp
  have c: "(\<forall>k\<in>set [0..<N]. \<rho> k \<noteq> Fin (- 2)) = True"
    using assms by simp
  show ?thesis by (simp only: fill_takeWhile all c if_True)
qed

lemma fill_failure:
  assumes "p < N" and "\<forall>k<p. \<rho> k \<noteq> Fin (- 2)" and "\<rho> p = Fin (- 2)"
  shows "fill pw \<rho> [0..<N] c = (Returned 0, fold (\<lambda>k c. c[k := cell_value pw (\<rho> k)]) [0..<p] c)"
proof -
  have "takeWhile (\<lambda>k. \<rho> k \<noteq> Fin (- 2)) [0..<N] = [0..<p]"
    using assms by (intro takeWhile_upt_first) simp_all
  moreover have "\<not> (\<forall>k\<in>set [0..<N]. \<rho> k \<noteq> Fin (- 2))"
    using assms(1,3) by auto
  ultimately show ?thesis by (simp only: fill_takeWhile if_False)
qed

lemma cell_in_bounds:
  assumes "t + unat (dl :: size_t) + unat (wlen :: size_t) \<le> length sig" and "length sig < 2 ^ 64"
  shows "\<exists>r. corrcoef rnd sig (of_nat t) (of_nat t + dl) wlen = Some r"
proof -
  have t: "unat (of_nat t :: size_t) = t"
    using assms by (simp add: unat_of_nat)
  have "unat (dl + of_nat t) = unat dl + t"
    using assms by (intro unat_add_of_nat) simp
  then have s: "unat (of_nat t + dl) = t + unat dl"
    by (simp add: add.commute)
  show ?thesis
    using assms by (intro corrcoef_in_bounds) (simp_all add: t s)
qed

lemma delay_cells:
  assumes "delay_call_ok sig delays wlen D T cgram"
  shows "\<forall>i<unat D. \<forall>t<unat T.
      corrcoef rnd sig (of_nat t) (of_nat t + delays ! i) wlen
        = Some (cell_coef rnd sig delays wlen (unat T) (i * unat T + t))"
proof (intro allI impI)
  fix i t
  assume i: "i < unat D" and t: "t < unat T"
  then have "t + unat (delays ! i) + unat wlen \<le> length sig" and "length sig < 2 ^ 64"
    using assms by (simp_all add: delay_call_ok_def)
  then obtain r where "corrcoef rnd sig (of_nat t) (of_nat t + delays ! i) wlen = Some r"
    using cell_in_bounds by blast
  then show "corrcoef rnd sig (of_nat t) (of_nat t + delays ! i) wlen
        = Some (cell_coef rnd sig delays wlen (unat T) (i * unat T + t))"
    using t by (simp add: cell_coef_def)
qed

lemma correlogram_delay_as_fill:
  assumes "delay_call_ok sig delays wlen D T cgram"
  shows "correlogram_delay rnd pw sig delays wlen [D, T] cgram
       = Some (finish (fill pw (cell_coef rnd sig delays wlen (unat T)) [0..<unat D * unat T] cgram))"
  using assms delay_cells [OF assms]
  by (intro correlogram_delay_fill) (simp_all add: delay_call_ok_def)

lemma linear_index:
  assumes "(k :: nat) < D * T"
  shows "k div T < D" and "k mod T < T" and "k div T * T + k mod T = k"
proof -
  have T: "0 < T" using assms by (cases T) simp_all
  show "k div T < D" using assms by (simp add: less_mult_imp_div_less)
  show "k mod T < T" using T by simp
  show "k div T * T + k mod T = k" by simp
qed

lemma neg_self_quotient: "v \<noteq> 0 \<Longrightarrow> - v / v = - (1 :: real)"
  by simp

lemma delay_sentinel_free:
  assumes ok: "delay_call_ok sig delays wlen D T cgram"
    and free: "\<forall>i<unat D. \<forall>t<unat T. p i t \<longrightarrow>
        corrcoef rnd sig (of_nat t) (of_nat t + delays ! i) wlen \<noteq> Some (Fin (- 2))"
    and k: "k < unat D * unat T" and pk: "p (k div unat T) (k mod unat T)"
  shows "cell_coef rnd sig delays wlen (unat T) k \<noteq> Fin (- 2)"
proof -
  note li = linear_index [OF k]
  have "corrcoef rnd sig (of_nat (k mod unat T)) (of_nat (k mod unat T) + delays ! (k div unat T)) wlen
      = Some (cell_coef rnd sig delays wlen (unat T) (k div unat T * unat T + k mod unat T))"
    using delay_cells [OF ok] li(1,2) by blast
  moreover have "corrcoef rnd sig (of_nat (k mod unat T)) (of_nat (k mod unat T) + delays ! (k div unat T)) wlen
      \<noteq> Some (Fin (- 2))"
    using free li(1,2) pk by blast
  ultimately show ?thesis by (simp only: li(3)) simp
qed

lemma row_major_less:
  assumes "(t :: nat) < T" and "i < D"
  shows "i * T + t < D * T"
proof -
  have "i * T + t < Suc i * T" using assms(1) by simp
  also have "\<dots> \<le> D * T" using assms(2) by (intro mult_le_mono1) simp
  finally show ?thesis .
qed

lemma correlogram_delay_success:
  assumes "delay_call_ok sig delays wlen D T cgram"
    and "\<forall>i<unat D. \<forall>t<unat T.
        corrcoef rnd sig (of_nat t) (of_nat t + delays ! i) wlen \<noteq> Some (Fin (- 2))"
  shows "\<exists>cgram'. correlogram_delay rnd pw sig delays wlen [D, T] cgram = Some (1, cgram')
           \<and> length cgram' = length cgram
           \<and> (\<forall>i<unat D. \<forall>t<unat T. \<exists>r.
                 corrcoef rnd sig (of_nat t) (of_nat t + delays ! i) wlen = Some r
                 \<and> cgram' ! (i * unat T + t) = (if dgt r (Fin 0) then pw r 4 else Fin 0))
           \<and> (\<forall>k<length cgram. unat D * unat T \<le> k \<longrightarrow> cgram' ! k = cgram ! k)"
proof -
  let ?\<rho> = "cell_coef rnd sig delays wlen (unat T)"
  let ?N = "unat D * unat T"
  let ?c = "fold (\<lambda>k c. c[k := cell_value pw (?\<rho> k)]) [0..<?N] cgram"
  have free: "\<forall>k<?N. ?\<rho> k \<noteq> Fin (- 2)"
    using delay_sentinel_free [OF assms(1), of "\<lambda>i t. True"] assms(2) by simp
  have res: "correlogram_delay rnd pw sig delays wlen [D, T] cgram = Some (1, ?c)"
    by (simp add: correlogram_delay_as_fill [OF assms(1)] fill_success [OF free])
  have len: "length ?c = length cgram"
    by (rule length_fold_update)
  have room: "?N \<le> length cgram"
    using assms(1) by (simp add: delay_call_ok_def)
  have cells: "\<exists>r. corrcoef rnd sig (of_nat t) (of_nat t + delays ! i) wlen = Some r
        \<and> ?c ! (i * unat T + t) = (if dgt r (Fin 0) then pw r 4 else Fin 0)"
    if "i < unat D" and "t < unat T" for i t
  proof -
    have k: "i * unat T + t < ?N" using that by (intro row_major_less)
    have "corrcoef rnd sig (of_nat t) (of_nat t + delays ! i) wlen = Some (?\<rho> (i * unat T + t))"
      using delay_cells [OF assms(1)] that by blast
    moreover have "?c ! (i * unat T + t) = cell_value pw (?\<rho> (i * unat T + t))"
      using k room by (simp add: nth_fold_update)
    ultimately show ?thesis by (simp add: cell_value_def)
  qed
  have frame: "?c ! k = cgram ! k" if "k < length cgram" and "?N \<le> k" for k
    using that by (simp add: nth_fold_update)
  show ?thesis using res len cells frame by blast
qed

lemmas builder_eval =
  correlogram_delay_def correlogram_delay_outer.simps correlogram_delay_inner.simps
  correlogram_def correlogram_outer.simps correlogram_inner.simps wr_def cell_value_def

lemma lex_linear:
  assumes "(t :: nat) < T" and "t0 < T"
  shows "i * T + t < i0 * T + t0 \<longleftrightarrow> i < i0 \<or> (i = i0 \<and> t < t0)"
proof -
  have up: "a * T + s < b * T + s'" if "a < b" "s < T" for a b s s' :: nat
  proof -
    have "a * T + s < Suc a * T" using that(2) by simp
    also have "\<dots> \<le> b * T" using that(1) by (intro mult_le_mono1) simp
    finally show ?thesis by simp
  qed
  consider "i < i0" | "i = i0" | "i0 < i" by linarith
  then show ?thesis
  proof cases
    case 1
    then show ?thesis using up [OF 1 assms(1), of t0] by simp
  next
    case 2
    then show ?thesis by simp
  next
    case 3
    then show ?thesis using up [OF 3 assms(2), of t] by simp
  qed
qed

lemma correlogram_delay_abort:
  assumes ok: "delay_call_ok sig delays wlen D T cgram"
    and i0: "i0 < unat D" and t0: "t0 < unat T"
    and fail: "corrcoef rnd sig (of_nat t0) (of_nat t0 + delays ! i0) wlen = Some (Fin (- 2))"
    and first: "\<forall>i<unat D. \<forall>t<unat T. i < i0 \<or> (i = i0 \<and> t < t0) \<longrightarrow>
        corrcoef rnd sig (of_nat t) (of_nat t + delays ! i) wlen \<noteq> Some (Fin (- 2))"
  shows "\<exists>cgram'. correlogram_delay rnd pw sig delays wlen [D, T] cgram = Some (0, cgram')
           \<and> length cgram' = length cgram
           \<and> (\<forall>i<unat D. \<forall>t<unat T. i < i0 \<or> (i = i0 \<and> t < t0) \<longrightarrow> (\<exists>r.
                 corrcoef rnd sig (of_nat t) (of_nat t + delays ! i) wlen = Some r
                 \<and> cgram' ! (i * unat T + t) = (if dgt r (Fin 0) then pw r 4 else Fin 0)))
           \<and> (\<forall>k<length cgram. i0 * unat T + t0 \<le> k \<longrightarrow> cgram' ! k = cgram ! k)"
proof -
  let ?\<rho> = "cell_coef rnd sig delays wlen (unat T)"
  let ?N = "unat D * unat T"
  let ?p = "i0 * unat T + t0"
  let ?c = "fold (\<lambda>k c. c[k := cell_value pw (?\<rho> k)]) [0..<?p] cgram"
  have p: "?p < ?N" using i0 t0 by (intro row_major_less)
  have before: "\<forall>k<?p. ?\<rho> k \<noteq> Fin (- 2)"
  proof (intro allI impI)
    fix k assume k: "k < ?p"
    then have kN: "k < ?N" using p by simp
    note li = linear_index [OF kN]
    have "k div unat T * unat T + k mod unat T < ?p" using k by (simp only: li(3))
    then have "k div unat T < i0 \<or> (k div unat T = i0 \<and> k mod unat T < t0)"
      using lex_linear [OF li(2) t0] by blast
    then show "?\<rho> k \<noteq> Fin (- 2)"
      using delay_sentinel_free [OF ok first kN] by blast
  qed
  have at: "?\<rho> ?p = Fin (- 2)"
    using delay_cells [OF ok] i0 t0 fail by fastforce
  have res: "correlogram_delay rnd pw sig delays wlen [D, T] cgram = Some (0, ?c)"
    by (simp add: correlogram_delay_as_fill [OF ok] fill_failure [OF p before at])
  have len: "length ?c = length cgram"
    by (rule length_fold_update)
  have room: "?N \<le> length cgram"
    using ok by (simp add: delay_call_ok_def)
  have cells: "\<exists>r. corrcoef rnd sig (of_nat t) (of_nat t + delays ! i) wlen = Some r
        \<and> ?c ! (i * unat T + t) = (if dgt r (Fin 0) then pw r 4 else Fin 0)"
    if "i < unat D" and "t < unat T" and "i < i0 \<or> (i = i0 \<and> t < t0)" for i t
  proof -
    have k: "i * unat T + t < ?p" using lex_linear [OF that(2) t0] that(3) by blast
    have "corrcoef rnd sig (of_nat t) (of_nat t + delays ! i) wlen = Some (?\<rho> (i * unat T + t))"
      using delay_cells [OF ok] that by blast
    moreover have "?c ! (i * unat T + t) = cell_value pw (?\<rho> (i * unat T + t))"
      using k p room by (simp add: nth_fold_update)
    ultimately show ?thesis by (simp add: cell_value_def)
  qed
  have frame: "?c ! k = cgram ! k" if "k < length cgram" and "?p \<le> k" for k
    using that by (simp add: nth_fold_update)
  show ?thesis using res len cells frame by blast
qed

lemma rd_range_delays:
  assumes "delay \<noteq> 0" and "delay < (D :: size_t)"
  shows "rd (map of_nat [1..<unat D]) (delay - 1) = Some delay"
proof -
  have u: "unat (delay - 1) = unat delay - 1"
    using assms(1) by (simp add: unat_minus_one)
  have pos: "0 < unat delay" using assms(1) by (simp add: unat_gt_0)
  have lt: "unat delay < unat D" using assms(2) by (simp add: word_less_nat_alt)
  have "unat delay - 1 < length [1..<unat D]" using pos lt by simp
  moreover have "[1..<unat D] ! (unat delay - 1) = unat delay"
    using pos lt by simp
  ultimately show ?thesis by (simp add: rd_def u)
qed

lemma correlogram_inner_as_delay:
  assumes "delay \<noteq> 0" and "delay < D"
  shows "correlogram_inner rnd pw sig wlen [D, T] delay off cgram
       = correlogram_delay_inner rnd pw sig (map of_nat [1..<unat D]) wlen [D - 1, T] (delay - 1) off cgram"
proof (induction "unat T - unat off" arbitrary: off cgram)
  case 0
  then have "\<not> off < T" by (simp add: word_less_nat_alt)
  then show ?case
    by (subst correlogram_inner.simps, subst correlogram_delay_inner.simps) (simp add: rd_def)
next
  case (Suc d)
  then have lt: "off < T" by (simp add: word_less_nat_alt)
  have d1: "rd [D, T] 1 = Some T" "rd [D - 1, T] 1 = Some T" by (simp_all add: rd_def)
  have IH: "correlogram_inner rnd pw sig wlen [D, T] delay (off + 1) c
       = correlogram_delay_inner rnd pw sig (map of_nat [1..<unat D]) wlen [D - 1, T] (delay - 1) (off + 1) c"
    for c
    using Suc.hyps(2) lt by (intro Suc.hyps(1)) (simp add: unat_succ_less)
  show ?case
    by (subst correlogram_inner.simps, subst correlogram_delay_inner.simps)
       (simp only: d1 option.case lt if_True rd_range_delays [OF assms],
        simp add: IH split: option.split)
qed

lemma correlogram_outer_as_delay:
  assumes "delay \<noteq> 0" and "delay \<le> D"
  shows "correlogram_outer rnd pw sig wlen [D, T] delay cgram
       = correlogram_delay_outer rnd pw sig (map of_nat [1..<unat D]) wlen [D - 1, T] (delay - 1) cgram"
  using assms
proof (induction "unat D - unat delay" arbitrary: delay cgram)
  case 0
  then have "\<not> delay < D" by (simp add: word_less_nat_alt)
  moreover have "\<not> delay - 1 < D - 1"
    using 0 by unat_arith
  ultimately show ?case
    by (subst correlogram_outer.simps, subst correlogram_delay_outer.simps) (simp add: rd_def)
next
  case (Suc d)
  then have lt: "delay < D" by (simp add: word_less_nat_alt)
  have lt': "delay - 1 < D - 1"
    using lt Suc.prems(1) by unat_arith
  have d0: "rd [D, T] 0 = Some D" "rd [D - 1, T] 0 = Some (D - 1)" by (simp_all add: rd_def)
  have nz: "delay + 1 \<noteq> 0" using lt by unat_arith
  have le: "delay + 1 \<le> D" using lt by unat_arith
  have e: "delay - 1 + 1 = delay + 1 - 1" by simp
  have IH: "correlogram_outer rnd pw sig wlen [D, T] (delay + 1) c
       = correlogram_delay_outer rnd pw sig (map of_nat [1..<unat D]) wlen [D - 1, T] (delay - 1 + 1) c"
    for c
    using Suc.hyps(2) lt nz le unfolding e by (intro Suc.hyps(1)) (simp_all add: unat_succ_less)
  show ?case
    by (subst correlogram_outer.simps, subst correlogram_delay_outer.simps)
       (simp only: d0 option.case lt lt' if_True correlogram_inner_as_delay [OF Suc.prems(1) lt],
        simp add: IH split: option.split prod.split loop_exit.split)
qed

lemma correlogram_as_delay:
  assumes "D \<noteq> 0"
  shows "correlogram rnd pw sig wlen [D, T] cgram
       = correlogram_delay rnd pw sig (map of_nat [1..<unat D]) wlen [D - 1, T] cgram"
proof -
  have "(1 :: size_t) \<le> D" using assms by unat_arith
  then show ?thesis
    using correlogram_outer_as_delay [of 1 D rnd pw sig wlen T cgram]
    by (simp add: correlogram_def correlogram_delay_def)
qed

lemma nth_range_delays:
  assumes "i < unat (D :: size_t) - 1"
  shows "map of_nat [1..<unat D] ! i = (of_nat (Suc i) :: size_t)"
    and "unat (of_nat (Suc i) :: size_t) = Suc i"
proof -
  show "map of_nat [1..<unat D] ! i = (of_nat (Suc i) :: size_t)"
    using assms by simp
  have "Suc i < unat D" using assms by simp
  also have "unat D < 2 ^ 64" using unsigned_less [of D, where ?'a = nat] by simp
  finally show "unat (of_nat (Suc i) :: size_t) = Suc i"
    by (simp only: unat_of_nat) simp
qed

lemma range_call_as_delay:
  assumes "range_call_ok sig wlen D T cgram" and "D \<noteq> 0"
  shows "delay_call_ok sig (map of_nat [1..<unat D]) wlen (D - 1) T cgram"
proof -
  have u: "unat (D - 1) = unat D - 1"
    using assms(2) by (simp add: unat_minus_one)
  have "t + unat (map of_nat [1..<unat D] ! i :: size_t) + unat wlen \<le> length sig"
    if "i < unat D - 1" and "t < unat T" for i t
  proof -
    have "t + Suc i + unat wlen \<le> length sig"
      using assms(1) that unfolding range_call_ok_def by (elim conjE allE [of _ "Suc i"] allE [of _ t]) simp
    then show ?thesis by (simp only: nth_range_delays [OF that(1)])
  qed
  then show ?thesis
    using assms(1) by (simp add: delay_call_ok_def range_call_ok_def u)
qed

lemma correlogram_no_delays: "correlogram rnd pw sig wlen [0, T] cgram = Some (1, cgram)"
  by (simp add: correlogram_def correlogram_outer.simps rd_def)

lemma correlogram_success:
  assumes ok: "range_call_ok sig wlen D T cgram"
    and free: "\<forall>d t. 1 \<le> d \<and> d < unat D \<and> t < unat T \<longrightarrow>
        corrcoef rnd sig (of_nat t) (of_nat t + of_nat d) wlen \<noteq> Some (Fin (- 2))"
  shows "\<exists>cgram'. correlogram rnd pw sig wlen [D, T] cgram = Some (1, cgram')
           \<and> length cgram' = length cgram
           \<and> (\<forall>d t. 1 \<le> d \<and> d < unat D \<and> t < unat T \<longrightarrow> (\<exists>r.
                 corrcoef rnd sig (of_nat t) (of_nat t + of_nat d) wlen = Some r
                 \<and> cgram' ! ((d - 1) * unat T + t) = (if dgt r (Fin 0) then pw r 4 else Fin 0)))
           \<and> (\<forall>k<length cgram. (unat D - 1) * unat T \<le> k \<longrightarrow> cgram' ! k = cgram ! k)"
proof (cases "D = 0")
  case True
  then show ?thesis by (simp add: correlogram_no_delays)
next
  case False
  let ?ds = "map of_nat [1..<unat D] :: size_t list"
  have u: "unat (D - 1) = unat D - 1"
    using False by (simp add: unat_minus_one)
  have dok: "delay_call_ok sig ?ds wlen (D - 1) T cgram"
    by (rule range_call_as_delay [OF ok False])
  have dfree: "\<forall>i<unat (D - 1). \<forall>t<unat T.
      corrcoef rnd sig (of_nat t) (of_nat t + ?ds ! i) wlen \<noteq> Some (Fin (- 2))"
  proof (intro allI impI)
    fix i t assume i: "i < unat (D - 1)" and t: "t < unat T"
    then have i': "i < unat D - 1" by (simp add: u)
    have "corrcoef rnd sig (of_nat t) (of_nat t + of_nat (Suc i)) wlen \<noteq> Some (Fin (- 2))"
      using free i' t by (intro free [rule_format]) simp
    then show "corrcoef rnd sig (of_nat t) (of_nat t + ?ds ! i) wlen \<noteq> Some (Fin (- 2))"
      by (simp only: nth_range_delays(1) [OF i'] simp_thms)
  qed
  obtain cgram' where res: "correlogram_delay rnd pw sig ?ds wlen [D - 1, T] cgram = Some (1, cgram')"
    and len: "length cgram' = length cgram"
    and cells: "\<forall>i<unat (D - 1). \<forall>t<unat T. \<exists>r.
        corrcoef rnd sig (of_nat t) (of_nat t + ?ds ! i) wlen = Some r
        \<and> cgram' ! (i * unat T + t) = (if dgt r (Fin 0) then pw r 4 else Fin 0)"
    and frame: "\<forall>k<length cgram. unat (D - 1) * unat T \<le> k \<longrightarrow> cgram' ! k = cgram ! k"
    using correlogram_delay_success [OF dok dfree] by blast
  have res': "correlogram rnd pw sig wlen [D, T] cgram = Some (1, cgram')"
    by (simp only: correlogram_as_delay [OF False] res)
  have cells': "\<exists>r. corrcoef rnd sig (of_nat t) (of_nat t + of_nat d) wlen = Some r
        \<and> cgram' ! ((d - 1) * unat T + t) = (if dgt r (Fin 0) then pw r 4 else Fin 0)"
    if "1 \<le> d" and "d < unat D" and "t < unat T" for d t
  proof -
    have i: "d - 1 < unat D - 1" using that by simp
    have e: "Suc (d - 1) = d" using that by simp
    have n: "?ds ! (d - 1) = of_nat d"
      using nth_range_delays(1) [OF i] by (simp only: e)
    have pre: "d - 1 < unat (D - 1)" using i by (simp only: u)
    from cells pre that(3)
    have "\<exists>r. corrcoef rnd sig (of_nat t) (of_nat t + ?ds ! (d - 1)) wlen = Some r
        \<and> cgram' ! ((d - 1) * unat T + t) = (if dgt r (Fin 0) then pw r 4 else Fin 0)"
      by blast
    then show ?thesis by (simp only: n)
  qed
  have frame': "\<forall>k<length cgram. (unat D - 1) * unat T \<le> k \<longrightarrow> cgram' ! k = cgram ! k"
    using frame by (simp only: u)
  show ?thesis using res' len cells' frame' by blast
qed

lemma correlogram_abort:
  assumes ok: "range_call_ok sig wlen D T cgram"
    and d0: "1 \<le> d0" "d0 < unat D" and t0: "t0 < unat T"
    and fail: "corrcoef rnd sig (of_nat t0) (of_nat t0 + of_nat d0) wlen = Some (Fin (- 2))"
    and first: "\<forall>d t. 1 \<le> d \<and> d < unat D \<and> t < unat T \<and> (d < d0 \<or> (d = d0 \<and> t < t0)) \<longrightarrow>
        corrcoef rnd sig (of_nat t) (of_nat t + of_nat d) wlen \<noteq> Some (Fin (- 2))"
  shows "\<exists>cgram'. correlogram rnd pw sig wlen [D, T] cgram = Some (0, cgram')
           \<and> length cgram' = length cgram
           \<and> (\<forall>d t. 1 \<le> d \<and> d < unat D \<and> t < unat T \<and> (d < d0 \<or> (d = d0 \<and> t < t0)) \<longrightarrow> (\<exists>r.
                 corrcoef rnd sig (of_nat t) (of_nat t + of_nat d) wlen = Some r
                 \<and> cgram' ! ((d - 1) * unat T + t) = (if dgt r (Fin 0) then pw r 4 else Fin 0)))
           \<and> (\<forall>k<length cgram. (d0 - 1) * unat T + t0 \<le> k \<longrightarrow> cgram' ! k = cgram ! k)"
proof -
  have D: "D \<noteq> 0" using d0 by (auto simp: unat_gt_0 [symmetric])
  let ?ds = "map of_nat [1..<unat D] :: size_t list"
  have u: "unat (D - 1) = unat D - 1"
    using D by (simp add: unat_minus_one)
  have dok: "delay_call_ok sig ?ds wlen (D - 1) T cgram"
    by (rule range_call_as_delay [OF ok D])
  have i0: "d0 - 1 < unat (D - 1)" using d0 by (simp add: u)
  have e0: "Suc (d0 - 1) = d0" using d0 by simp
  have n0: "?ds ! (d0 - 1) = of_nat d0"
    using nth_range_delays(1) [of "d0 - 1" D] i0 by (simp only: e0 u)
  have dfail: "corrcoef rnd sig (of_nat t0) (of_nat t0 + ?ds ! (d0 - 1)) wlen = Some (Fin (- 2))"
    using fail by (simp only: n0)
  have dfirst: "\<forall>i<unat (D - 1). \<forall>t<unat T. i < d0 - 1 \<or> (i = d0 - 1 \<and> t < t0) \<longrightarrow>
      corrcoef rnd sig (of_nat t) (of_nat t + ?ds ! i) wlen \<noteq> Some (Fin (- 2))"
  proof (intro allI impI)
    fix i t assume i: "i < unat (D - 1)" and t: "t < unat T"
      and b: "i < d0 - 1 \<or> (i = d0 - 1 \<and> t < t0)"
    have i': "i < unat D - 1" using i by (simp add: u)
    have "corrcoef rnd sig (of_nat t) (of_nat t + of_nat (Suc i)) wlen \<noteq> Some (Fin (- 2))"
      using i' t b d0 by (intro first [rule_format]) auto
    then show "corrcoef rnd sig (of_nat t) (of_nat t + ?ds ! i) wlen \<noteq> Some (Fin (- 2))"
      by (simp only: nth_range_delays(1) [OF i'] simp_thms)
  qed
  obtain cgram' where res: "correlogram_delay rnd pw sig ?ds wlen [D - 1, T] cgram = Some (0, cgram')"
    and len: "length cgram' = length cgram"
    and cells: "\<forall>i<unat (D - 1). \<forall>t<unat T. i < d0 - 1 \<or> (i = d0 - 1 \<and> t < t0) \<longrightarrow> (\<exists>r.
        corrcoef rnd sig (of_nat t) (of_nat t + ?ds ! i) wlen = Some r
        \<and> cgram' ! (i * unat T + t) = (if dgt r (Fin 0) then pw r 4 else Fin 0))"
    and frame: "\<forall>k<length cgram. (d0 - 1) * unat T + t0 \<le> k \<longrightarrow> cgram' ! k = cgram ! k"
    using correlogram_delay_abort [OF dok i0 t0 dfail dfirst] by blast
  have res': "correlogram rnd pw sig wlen [D, T] cgram = Some (0, cgram')"
    by (simp only: correlogram_as_delay [OF D] res)
  have cells': "\<exists>r. corrcoef rnd sig (of_nat t) (of_nat t + of_nat d) wlen = Some r
        \<and> cgram' ! ((d - 1) * unat T + t) = (if dgt r (Fin 0) then pw r 4 else Fin 0)"
    if "1 \<le> d" and "d < unat D" and "t < unat T" and "d < d0 \<or> (d = d0 \<and> t < t0)" for d t
  proof -
    have i: "d - 1 < unat D - 1" using that by simp
    have e: "Suc (d - 1) = d" using that by simp
    have n: "?ds ! (d - 1) = of_nat d"
      using nth_range_delays(1) [OF i] by (simp only: e)
    have b: "d - 1 < d0 - 1 \<or> (d - 1 = d0 - 1 \<and> t < t0)" using that d0 by auto
    have pre: "d - 1 < unat (D - 1)" using i by (simp only: u)
    from cells pre that(3) b
    have "\<exists>r. corrcoef rnd sig (of_nat t) (of_nat t + ?ds ! (d - 1)) wlen = Some r
        \<and> cgram' ! ((d - 1) * unat T + t) = (if dgt r (Fin 0) then pw r 4 else Fin 0)"
      by blast
    then show ?thesis by (simp only: n)
  qed
  show ?thesis using res' len cells' frame by blast
qed

lemma corrcoef_empty_window: "corrcoef exact data off_x off_y 0 = Some NaN"
  by (simp add: corrcoef_def corrcoef_loop.simps sums_zero_def double_of_size_def dsub_def)

lemma spoiled_step:
  assumes "spoiled s sq \<or> \<not> is_fin x"
  shows "spoiled (dadd exact s x) (dadd exact sq (dmul exact x x))"
  using assms by (cases s; cases sq; cases x) (simp_all add: spoiled_def)

lemma spoiled_variance:
  assumes "spoiled s sq" and "0 < n"
  shows "dsqrt exact (dsub exact sq (ddiv exact (dmul exact s s) (Fin n))) = NaN"
  using assms by (cases s; cases sq) (simp_all add: spoiled_def dsub_def)

lemma fold_spoiled_x:
  assumes "spoiled (s_x s) (s_sq_x s) \<or> (\<exists>m\<in>set ms. \<not> is_fin (data ! (ox + m)))"
  shows "spoiled (s_x (fold (\<lambda>m s. accumulate exact s (data ! (ox + m)) (data ! (oy + m))) ms s))
           (s_sq_x (fold (\<lambda>m s. accumulate exact s (data ! (ox + m)) (data ! (oy + m))) ms s))"
  using assms
proof (induction ms arbitrary: s)
  case Nil
  then show ?case by simp
next
  case (Cons m ms)
  let ?s' = "accumulate exact s (data ! (ox + m)) (data ! (oy + m))"
  have "spoiled (s_x ?s') (s_sq_x ?s') \<or> (\<exists>m\<in>set ms. \<not> is_fin (data ! (ox + m)))"
  proof (cases "spoiled (s_x s) (s_sq_x s) \<or> \<not> is_fin (data ! (ox + m))")
    case True
    then show ?thesis using spoiled_step [OF True] by (simp add: accumulate_def)
  next
    case False
    then show ?thesis using Cons.prems by auto
  qed
  then show ?case using Cons.IH [of ?s'] by simp
qed

lemma fold_spoiled_y:
  assumes "spoiled (s_y s) (s_sq_y s) \<or> (\<exists>m\<in>set ms. \<not> is_fin (data ! (oy + m)))"
  shows "spoiled (s_y (fold (\<lambda>m s. accumulate exact s (data ! (ox + m)) (data ! (oy + m))) ms s))
           (s_sq_y (fold (\<lambda>m s. accumulate exact s (data ! (ox + m)) (data ! (oy + m))) ms s))"
  using assms
proof (induction ms arbitrary: s)
  case Nil
  then show ?case by simp
next
  case (Cons m ms)
  let ?s' = "accumulate exact s (data ! (ox + m)) (data ! (oy + m))"
  have "spoiled (s_y ?s') (s_sq_y ?s') \<or> (\<exists>m\<in>set ms. \<not> is_fin (data ! (oy + m)))"
  proof (cases "spoiled (s_y s) (s_sq_y s) \<or> \<not> is_fin (data ! (oy + m))")
    case True
    then show ?thesis using spoiled_step [OF True] by (simp add: accumulate_def)
  next
    case False
    then show ?thesis using Cons.prems by auto
  qed
  then show ?case using Cons.IH [of ?s'] by simp
qed

lemma dmul_NaN_right: "dmul rnd a NaN = NaN"
  by (cases a) simp_all

lemma ddiv_NaN_right: "ddiv rnd a NaN = NaN"
  by (cases a) simp_all

lemma corrcoef_as_fold:
  assumes "unat off_x + unat n \<le> length data" and "unat off_y + unat n \<le> length data"
    and "length data < 2 ^ 64"
  shows "corrcoef_loop rnd data off_x off_y (off_x + n) sums_zero
       = Some (fold (\<lambda>m s. accumulate rnd s (data ! (unat off_x + m)) (data ! (unat off_y + m)))
                 [0..<unat n] sums_zero)"
proof -
  have "corrcoef_loop rnd data (off_x + of_nat 0) (off_y + of_nat 0) (off_x + of_nat (unat n)) sums_zero
      = Some (fold (\<lambda>m s. accumulate rnd s (data ! (unat off_x + m)) (data ! (unat off_y + m)))
                 [0..<unat n] sums_zero)"
    using assms by (intro corrcoef_loop_fold) simp_all
  then show ?thesis by simp
qed

lemma corrcoef_nonfinite:
  assumes inx: "unat off_x + unat n \<le> length data" and iny: "unat off_y + unat n \<le> length data"
    and len: "length data < 2 ^ 64"
    and bad: "\<exists>m<unat n. \<not> is_fin (data ! (unat off_x + m)) \<or> \<not> is_fin (data ! (unat off_y + m))"
  shows "corrcoef exact data off_x off_y n = Some NaN"
proof -
  let ?s = "fold (\<lambda>m s. accumulate exact s (data ! (unat off_x + m)) (data ! (unat off_y + m)))
              [0..<unat n] sums_zero"
  have "0 < unat n" using bad by auto
  then have n0: "0 < real (unat n)" by (simp only: of_nat_0_less_iff)
  have "(\<exists>m\<in>set [0..<unat n]. \<not> is_fin (data ! (unat off_x + m)))
      \<or> (\<exists>m\<in>set [0..<unat n]. \<not> is_fin (data ! (unat off_y + m)))"
    using bad by auto
  then have "spoiled (s_x ?s) (s_sq_x ?s) \<or> spoiled (s_y ?s) (s_sq_y ?s)"
    using fold_spoiled_x [of sums_zero "[0..<unat n]" data "unat off_x" "unat off_y"]
      fold_spoiled_y [of sums_zero "[0..<unat n]" data "unat off_y" "unat off_x"]
    by blast
  then have "dsqrt exact (dsub exact (s_sq_x ?s) (ddiv exact (dmul exact (s_x ?s) (s_x ?s)) (Fin (real (unat n))))) = NaN
      \<or> dsqrt exact (dsub exact (s_sq_y ?s) (ddiv exact (dmul exact (s_y ?s) (s_y ?s)) (Fin (real (unat n))))) = NaN"
    using spoiled_variance [OF _ n0] by blast
  then have p: "dmul exact (dsqrt exact (dsub exact (s_sq_x ?s) (ddiv exact (dmul exact (s_x ?s) (s_x ?s)) (Fin (real (unat n))))))
             (dsqrt exact (dsub exact (s_sq_y ?s) (ddiv exact (dmul exact (s_y ?s) (s_y ?s)) (Fin (real (unat n)))))) = NaN"
    by (auto simp: dmul_NaN_right)
  show ?thesis
    by (simp only: corrcoef_def Let_def corrcoef_as_fold [OF inx iny len] option.case
          double_of_size_def p deq.simps if_False ddiv_NaN_right)
qed

lemma corrcoef_finite_window:
  assumes inx: "unat off_x + unat n \<le> length data" and iny: "unat off_y + unat n \<le> length data"
    and len: "length data < 2 ^ 64"
    and fin: "\<forall>m<unat n. is_fin (data ! (unat off_x + m)) \<and> is_fin (data ! (unat off_y + m))"
  shows "corrcoef exact data off_x off_y n = corrcoef exact (map Fin (map fin_val data)) off_x off_y n"
proof -
  let ?d' = "map Fin (map fin_val data)"
  have fv: "Fin (fin_val d) = d" if "is_fin d" for d
    using that by (cases d) simp_all
  have "fold (\<lambda>m s. accumulate exact s (?d' ! (unat off_x + m)) (?d' ! (unat off_y + m))) [0..<unat n] sums_zero
      = fold (\<lambda>m s. accumulate exact s (data ! (unat off_x + m)) (data ! (unat off_y + m))) [0..<unat n] sums_zero"
  proof (rule fold_cong [OF refl refl])
    fix m assume "m \<in> set [0..<unat n]"
    then have m: "m < unat n" by simp
    then have "?d' ! (unat off_x + m) = data ! (unat off_x + m)"
      and "?d' ! (unat off_y + m) = data ! (unat off_y + m)"
      using fin inx iny by (simp_all add: fv)
    then show "(\<lambda>s. accumulate exact s (?d' ! (unat off_x + m)) (?d' ! (unat off_y + m)))
        = (\<lambda>s. accumulate exact s (data ! (unat off_x + m)) (data ! (unat off_y + m)))"
      by simp
  qed
  moreover have "corrcoef_loop exact ?d' off_x off_y (off_x + n) sums_zero
      = Some (fold (\<lambda>m s. accumulate exact s (?d' ! (unat off_x + m)) (?d' ! (unat off_y + m)))
                 [0..<unat n] sums_zero)"
    using inx iny len by (intro corrcoef_as_fold) simp_all
  ultimately show ?thesis
    by (simp only: corrcoef_def Let_def corrcoef_as_fold [OF inx iny len])
qed

lemma corrcoef_trichotomy:
  assumes inx: "unat off_x + unat n \<le> length data" and iny: "unat off_y + unat n \<le> length data"
    and len: "length data < 2 ^ 64"
  shows "corrcoef exact data off_x off_y n = Some (Fin (- 2)) \<or> corrcoef exact data off_x off_y n = Some NaN
       \<or> (\<exists>q. corrcoef exact data off_x off_y n = Some (Fin q) \<and> - 1 \<le> q \<and> q \<le> 1)"
proof (cases "n = 0")
  case True
  then show ?thesis by (simp add: corrcoef_empty_window)
next
  case False
  then have n0: "0 < n" by (simp add: word_greater_zero_iff)
  then have n0': "0 < unat n" by (simp add: unat_gt_0)
  show ?thesis
  proof (cases "\<forall>m<unat n. is_fin (data ! (unat off_x + m)) \<and> is_fin (data ! (unat off_y + m))")
    case True
    let ?xs = "map fin_val data"
    have e: "corrcoef exact data off_x off_y n = corrcoef exact (map Fin ?xs) off_x off_y n"
      by (rule corrcoef_finite_window [OF inx iny len True])
    have "corrcoef exact (map Fin ?xs) off_x off_y n
       = Some (if pearson_p_std ?xs (unat off_x) (unat off_y) (unat n) = 0 then Fin (- 2)
               else Fin (pearson_cov ?xs (unat off_x) (unat off_y) (unat n)
                         / pearson_p_std ?xs (unat off_x) (unat off_y) (unat n)))"
      using inx iny len n0 by (intro corrcoef_Fin) simp_all
    then show ?thesis
      using corrcoef_range [OF n0', of ?xs "unat off_x" "unat off_y"] by (auto simp: e)
  next
    case False
    then have "corrcoef exact data off_x off_y n = Some NaN"
      using inx iny len by (intro corrcoef_nonfinite) auto
    then show ?thesis by simp
  qed
qed

lemma cell_value_range:
  assumes "r = NaN \<or> (\<exists>q. r = Fin q \<and> - 1 \<le> q \<and> q \<le> 1)"
  shows "\<exists>v. cell_value (dpow exact) r = Fin v \<and> 0 \<le> v \<and> v \<le> 1"
  using assms
proof
  assume "r = NaN"
  then show ?thesis by (simp add: cell_value_def)
next
  assume "\<exists>q. r = Fin q \<and> - 1 \<le> q \<and> q \<le> 1"
  then obtain q where q: "r = Fin q" "- 1 \<le> q" "q \<le> 1" by blast
  show ?thesis
  proof (cases "0 < q")
    case True
    then have "q ^ 4 \<le> 1" using q(3) by (simp add: power_le_one)
    then show ?thesis using True q by (simp add: cell_value_def)
  next
    case False
    then show ?thesis using q by (simp add: cell_value_def)
  qed
qed

lemma cell_trichotomy:
  assumes "t + unat (dl :: size_t) + unat (wlen :: size_t) \<le> length sig" and "length sig < 2 ^ 64"
  shows "corrcoef exact sig (of_nat t) (of_nat t + dl) wlen = Some (Fin (- 2))
       \<or> corrcoef exact sig (of_nat t) (of_nat t + dl) wlen = Some NaN
       \<or> (\<exists>q. corrcoef exact sig (of_nat t) (of_nat t + dl) wlen = Some (Fin q) \<and> - 1 \<le> q \<and> q \<le> 1)"
proof -
  have t: "unat (of_nat t :: size_t) = t"
    using assms by (simp add: unat_of_nat)
  have "unat (dl + of_nat t) = unat dl + t"
    using assms by (intro unat_add_of_nat) simp
  then have s: "unat (of_nat t + dl) = t + unat dl"
    by (simp add: add.commute)
  show ?thesis
    using assms by (intro corrcoef_trichotomy) (simp_all add: t s)
qed

lemma finish_success:
  assumes "finish (fill pw \<rho> [0..<N] c) = (1, c')"
  shows "(\<forall>k<N. \<rho> k \<noteq> Fin (- 2)) \<and> c' = fold (\<lambda>k c. c[k := cell_value pw (\<rho> k)]) [0..<N] c"
proof -
  have all: "\<forall>k<N. \<rho> k \<noteq> Fin (- 2)"
  proof (rule ccontr)
    assume "\<not> (\<forall>k<N. \<rho> k \<noteq> Fin (- 2))"
    then have "fst (fill pw \<rho> [0..<N] c) = Returned 0"
      by (auto simp: fill_takeWhile)
    then have "fst (finish (fill pw \<rho> [0..<N] c)) = 0"
      by (cases "fill pw \<rho> [0..<N] c") simp
    with assms show False by simp
  qed
  then show ?thesis using assms by (simp add: fill_success)
qed

lemma correlogram_delay_unit_cells:
  assumes ok: "delay_call_ok sig delays wlen D T cgram"
    and res: "correlogram_delay exact (dpow exact) sig delays wlen [D, T] cgram = Some (1, cgram')"
    and i: "i < unat D" and t: "t < unat T"
  shows "\<exists>v. cgram' ! (i * unat T + t) = Fin v \<and> 0 \<le> v \<and> v \<le> 1"
proof -
  let ?\<rho> = "cell_coef exact sig delays wlen (unat T)"
  let ?N = "unat D * unat T"
  let ?k = "i * unat T + t"
  have "finish (fill (dpow exact) ?\<rho> [0..<?N] cgram) = (1, cgram')"
    using res by (simp add: correlogram_delay_as_fill [OF ok])
  then have free: "\<forall>k<?N. ?\<rho> k \<noteq> Fin (- 2)"
    and c': "cgram' = fold (\<lambda>k c. c[k := cell_value (dpow exact) (?\<rho> k)]) [0..<?N] cgram"
    using finish_success by blast+
  have k: "?k < ?N" using i t by (intro row_major_less)
  have room: "?N \<le> length cgram" and "length sig < 2 ^ 64"
    and "t + unat (delays ! i) + unat wlen \<le> length sig"
    using ok i t by (simp_all add: delay_call_ok_def)
  then have tri: "corrcoef exact sig (of_nat t) (of_nat t + delays ! i) wlen = Some (Fin (- 2))
       \<or> corrcoef exact sig (of_nat t) (of_nat t + delays ! i) wlen = Some NaN
       \<or> (\<exists>q. corrcoef exact sig (of_nat t) (of_nat t + delays ! i) wlen = Some (Fin q) \<and> - 1 \<le> q \<and> q \<le> 1)"
    by (intro cell_trichotomy)
  have r: "corrcoef exact sig (of_nat t) (of_nat t + delays ! i) wlen = Some (?\<rho> ?k)"
    using delay_cells [OF ok] i t by blast
  have "?\<rho> ?k \<noteq> Fin (- 2)" using free k by blast
  then have "?\<rho> ?k = NaN \<or> (\<exists>q. ?\<rho> ?k = Fin q \<and> - 1 \<le> q \<and> q \<le> 1)"
    using tri by (simp add: r)
  then have "\<exists>v. cell_value (dpow exact) (?\<rho> ?k) = Fin v \<and> 0 \<le> v \<and> v \<le> 1"
    by (rule cell_value_range)
  moreover have "cgram' ! ?k = cell_value (dpow exact) (?\<rho> ?k)"
    using k room by (simp add: c' nth_fold_update)
  ultimately show ?thesis by simp
qed

lemma correlogram_unit_cells:
  assumes ok: "range_call_ok sig wlen D T cgram"
    and res: "correlogram exact (dpow exact) sig wlen [D, T] cgram = Some (1, cgram')"
    and d: "1 \<le> d" "d < unat D" and t: "t < unat T"
  shows "\<exists>v. cgram' ! ((d - 1) * unat T + t) = Fin v \<and> 0 \<le> v \<and> v \<le> 1"
proof -
  have D: "D \<noteq> 0" using d by (auto simp: unat_gt_0 [symmetric])
  have u: "unat (D - 1) = unat D - 1"
    using D by (simp add: unat_minus_one)
  have "d - 1 < unat (D - 1)" using d by (simp add: u)
  then show ?thesis
    using correlogram_delay_unit_cells [OF range_call_as_delay [OF ok D] _ _ t, of cgram' "d - 1"] res
    by (simp add: correlogram_as_delay [OF D])
qed

lemma correlogram_delay_inner_empty:
  "correlogram_delay_inner rnd pw sig delays wlen [D, 0] i 0 cgram = Some (Completed, cgram)"
  by (subst correlogram_delay_inner.simps) (simp add: rd_def)

lemma correlogram_delay_outer_empty:
  "correlogram_delay_outer rnd pw sig delays wlen [D, 0] i cgram = Some (1, cgram)"
proof (induction "unat D - unat i" arbitrary: i)
  case 0
  then have "\<not> i < D" by (simp add: word_less_nat_alt)
  then show ?case by (subst correlogram_delay_outer.simps) (simp add: rd_def)
next
  case (Suc n)
  then have lt: "i < D" by (simp add: word_less_nat_alt)
  have "correlogram_delay_outer rnd pw sig delays wlen [D, 0] (i + 1) cgram = Some (1, cgram)"
    using Suc.hyps(2) lt by (intro Suc.hyps(1)) (simp add: unat_succ_less)
  then show ?case
    using lt by (subst correlogram_delay_outer.simps) (simp add: rd_def correlogram_delay_inner_empty)
qed

lemma correlogram_inner_empty:
  "correlogram_inner rnd pw sig wlen [D, 0] delay 0 cgram = Some (Completed, cgram)"
  by (subst correlogram_inner.simps) (simp add: rd_def)

lemma correlogram_outer_empty:
  "correlogram_outer rnd pw sig wlen [D, 0] delay cgram = Some (1, cgram)"
proof (induction "unat D - unat delay" arbitrary: delay)
  case 0
  then have "\<not> delay < D" by (simp add: word_less_nat_alt)
  then show ?case by (subst correlogram_outer.simps) (simp add: rd_def)
next
  case (Suc n)
  then have lt: "delay < D" by (simp add: word_less_nat_alt)
  have "correlogram_outer rnd pw sig wlen [D, 0] (delay + 1) cgram = Some (1, cgram)"
    using Suc.hyps(2) lt by (intro Suc.hyps(1)) (simp add: unat_succ_less)
  then show ?case
    using lt by (subst correlogram_outer.simps) (simp add: rd_def correlogram_inner_empty)
qed

lemma correlogram_delay_no_rows:
  "correlogram_delay rnd pw sig delays wlen [0, T] cgram = Some (1, cgram)"
  by (simp add: correlogram_delay_def correlogram_delay_outer.simps rd_def)

lemma correlogram_one_row:
  "D \<le> 1 \<Longrightarrow> correlogram rnd pw sig wlen [D, T] cgram = Some (1, cgram)"
  by (simp add: correlogram_def correlogram_outer.simps rd_def not_less [symmetric])

subsection \<open>Rounding to binary64\<close>

lemma rne_near: "\<bar>of_int (rne z) - z\<bar> \<le> 1 / 2"
proof -
  have "of_int \<lfloor>z\<rfloor> \<le> z" and "z < of_int \<lfloor>z\<rfloor> + 1" by linarith+
  then show ?thesis
    by (auto simp: rne_def Let_def)
qed

lemma rne_unique:
  assumes "of_int m - 1 / 2 < z" and "z < of_int m + 1 / 2"
  shows "rne z = m"
proof -
  have "\<bar>of_int (rne z) - z\<bar> \<le> 1 / 2" by (rule rne_near)
  with assms have "(of_int (rne z) :: real) < of_int m + 1" and "(of_int m :: real) < of_int (rne z) + 1"
    by linarith+
  then have "rne z < m + 1" and "m < rne z + 1"
    by (simp_all only: of_int_less_iff [symmetric, where ?'a = real] of_int_add of_int_1)
  then show ?thesis by simp
qed

lemma rne_of_int: "rne (of_int m) = m"
  by (rule rne_unique) simp_all

lemma binade_exponent:
  assumes "2 ^ k \<le> \<bar>x :: real\<bar>" and "\<bar>x\<bar> < 2 ^ Suc k"
  shows "\<lfloor>log 2 \<bar>x\<bar>\<rfloor> = int k"
proof -
  have "(0 :: real) < 2 ^ k" by simp
  with assms(1) have pos: "0 < \<bar>x\<bar>" by linarith
  have "(2 :: real) powr real_of_int (int k) = 2 ^ k"
    by (simp add: powr_realpow)
  moreover have "(2 :: real) powr real_of_int (int k + 1) = 2 ^ Suc k"
    using powr_realpow [of 2 "Suc k"] by (simp add: add.commute)
  ultimately have "(2 :: real) powr real_of_int (int k) \<le> \<bar>x\<bar>"
    and "\<bar>x\<bar> < 2 powr real_of_int (int k + 1)"
    using assms by simp_all
  then show ?thesis
    using floor_log_eq_powr_iff [OF pos, of 2 "int k"] by simp
qed

lemma ulp_below_one:
  assumes "k \<le> 52"
  shows "(2 :: real) powr real_of_int (int k - 52) = 1 / 2 ^ (52 - k)"
proof -
  have "int k - 52 = - int (52 - k)" using assms by linarith
  then have "real_of_int (int k - 52) = - real (52 - k)"
    by (simp only: of_int_minus of_int_of_nat_eq)
  then have "(2 :: real) powr real_of_int (int k - 52) = 2 powr (- real (52 - k))"
    by (simp only:)
  also have "\<dots> = 1 / 2 ^ (52 - k)"
    by (simp only: powr_minus powr_realpow zero_less_numeral inverse_eq_divide)
  finally show ?thesis .
qed

lemma binary64_normal:
  assumes lo: "2 ^ k \<le> \<bar>x\<bar>" and hi: "\<bar>x\<bar> < 2 ^ Suc k" and k: "k \<le> 52"
  shows "binary64 x = Fin (of_int (rne (x * 2 ^ (52 - k))) / 2 ^ (52 - k))"
proof -
  have "(0 :: real) < 2 ^ k" by simp
  with lo have x0: "x \<noteq> 0" by linarith
  have e: "max \<lfloor>log 2 \<bar>x\<bar>\<rfloor> (- 1022) = int k"
    by (simp add: binade_exponent [OF lo hi])
  let ?p = "(2 :: real) ^ (52 - k)"
  let ?m = "rne (x * ?p)"
  have p1: "1 \<le> ?p" by simp
  have "\<bar>of_int ?m - x * ?p\<bar> \<le> 1 / 2" by (rule rne_near)
  moreover have "\<bar>x * ?p\<bar> < 2 ^ Suc k * ?p"
    using hi by (simp add: abs_mult)
  moreover have "(2 :: real) ^ Suc k * ?p = 2 ^ 53"
    using k by (simp only: power_add [symmetric]) simp
  ultimately have m: "\<bar>of_int ?m :: real\<bar> < 2 ^ 53 + 1" by linarith
  have "\<bar>of_int ?m / ?p\<bar> = \<bar>of_int ?m :: real\<bar> / ?p"
    by (simp add: abs_divide)
  also have "\<dots> \<le> \<bar>of_int ?m :: real\<bar> / 1"
    using p1 by (intro divide_left_mono) simp_all
  also have "\<dots> < 2 ^ 53 + 1" using m by simp
  also have "(2 :: real) ^ 53 + 1 \<le> 2 ^ 1024" by simp
  finally have fin: "\<not> 2 ^ 1024 \<le> \<bar>of_int ?m * (1 / ?p)\<bar>" by simp
  have q: "x / (1 / ?p) = x * ?p" by simp
  show ?thesis
    unfolding binary64_def Let_def e ulp_below_one [OF k] q
    using x0 fin by (simp only: if_False) simp
qed

lemma binary64_eval:
  assumes "2 ^ k \<le> \<bar>x\<bar>" and "\<bar>x\<bar> < 2 ^ Suc k" and "k \<le> 52"
    and "of_int m - 1 / 2 < x * 2 ^ (52 - k)" and "x * 2 ^ (52 - k) < of_int m + 1 / 2"
  shows "binary64 x = Fin (of_int m / 2 ^ (52 - k))"
  by (simp only: binary64_normal [OF assms(1-3)] rne_unique [OF assms(4,5)])

lemma binary64_of_int:
  assumes "\<bar>n\<bar> < 2 ^ 53"
  shows "binary64 (of_int n) = Fin (of_int n)"
proof (cases "n = 0")
  case True
  then show ?thesis by (simp add: binary64_def)
next
  case False
  define k where "k = nat \<lfloor>log 2 \<bar>of_int n :: real\<bar>\<rfloor>"
  from False have "1 \<le> \<bar>n\<bar>" by linarith
  then have ge1: "1 \<le> \<bar>of_int n :: real\<bar>"
    by (simp only: of_int_abs [symmetric] of_int_1_le_iff)
  then have pos: "0 < \<bar>of_int n :: real\<bar>" by linarith
  from ge1 have "0 \<le> log 2 \<bar>of_int n :: real\<bar>" by simp
  then have "0 \<le> \<lfloor>log 2 \<bar>of_int n :: real\<bar>\<rfloor>" by simp
  then have fk: "\<lfloor>log 2 \<bar>of_int n :: real\<bar>\<rfloor> = int k" by (simp add: k_def)
  have "(2 :: real) powr real_of_int (int k) \<le> \<bar>of_int n\<bar>"
    and "\<bar>of_int n :: real\<bar> < 2 powr (real_of_int (int k) + 1)"
    using floor_log_eq_powr_iff [OF pos, of 2 "int k"] fk by simp_all
  moreover have "(2 :: real) powr real_of_int (int k) = 2 ^ k"
    by (simp add: powr_realpow)
  moreover have "(2 :: real) powr (real_of_int (int k) + 1) = 2 ^ Suc k"
    using powr_realpow [of 2 "Suc k"] by (simp add: add.commute)
  ultimately have lo: "2 ^ k \<le> \<bar>of_int n :: real\<bar>" and hi: "\<bar>of_int n :: real\<bar> < 2 ^ Suc k"
    by simp_all
  have "\<bar>of_int n :: real\<bar> < 2 ^ 53"
    using assms by (simp only: of_int_abs [symmetric]) (simp add: of_int_less_numeral_power_cancel_iff)
  with lo have klt: "(2 :: real) ^ k < 2 ^ 53" by linarith
  have "k < 53" by (rule power_less_imp_less_exp [OF _ klt]) simp
  then have k: "k \<le> 52" by simp
  have "of_int n * (2 :: real) ^ (52 - k) = of_int (n * 2 ^ (52 - k))" by simp
  then have "rne (of_int n * 2 ^ (52 - k)) = n * 2 ^ (52 - k)"
    by (simp only: rne_of_int)
  then show ?thesis
    by (simp add: binary64_normal [OF lo hi k])
qed

lemma binary64_numeral [simp]:
  "numeral w < (2 :: int) ^ 53 \<Longrightarrow> binary64 (numeral w) = Fin (numeral w)"
  "numeral w < (2 :: int) ^ 53 \<Longrightarrow> binary64 (- numeral w) = Fin (- numeral w)"
  "binary64 0 = Fin 0" "binary64 1 = Fin 1" "binary64 (- 1) = Fin (- 1)"
  using binary64_of_int [of "numeral w"] binary64_of_int [of "- numeral w"]
    binary64_of_int [of 0] binary64_of_int [of 1] binary64_of_int [of "- 1"]
  by simp_all

lemma sqrt3_scaled: "sqrt 3 * 2 ^ 52 = sqrt (3 * 2 ^ 104)"
proof -
  have "sqrt ((2 :: real) ^ 104) = 2 ^ 52"
    by (rule real_sqrt_unique) simp_all
  then show ?thesis by (simp only: real_sqrt_mult)
qed

lemma binary64_sqrt3: "binary64 (sqrt 3) = Fin (7800463371553962 / 2 ^ 52)"
proof -
  have lo: "2 ^ 0 \<le> \<bar>sqrt 3\<bar>" by simp
  have "sqrt 3 < 2" by (rule real_less_lsqrt) simp_all
  then have hi: "\<bar>sqrt 3\<bar> < 2 ^ Suc 0" by simp
  have "(of_int 7800463371553962 - 1 / 2 :: real) < sqrt (3 * 2 ^ 104)"
    by (rule real_less_rsqrt) (simp add: power_divide)
  then have a: "of_int 7800463371553962 - 1 / 2 < sqrt 3 * 2 ^ (52 - 0)"
    by (simp only: sqrt3_scaled diff_zero)
  have "sqrt (3 * 2 ^ 104) < (of_int 7800463371553962 + 1 / 2 :: real)"
    by (rule real_less_lsqrt) (simp_all add: power_divide)
  then have b: "sqrt 3 * 2 ^ (52 - 0) < of_int 7800463371553962 + 1 / 2"
    by (simp only: sqrt3_scaled diff_zero)
  show ?thesis
    using binary64_eval [OF lo hi _ a b] by simp
qed

lemma binary64_sqrt3_squared:
  "binary64 (7800463371553962 / 2 ^ 52 * (7800463371553962 / 2 ^ 52)) = Fin (6755399441055743 / 2 ^ 51)"
  using binary64_eval [where k = 1 and m = 6755399441055743
      and x = "7800463371553962 / 2 ^ 52 * (7800463371553962 / 2 ^ 52)"]
  by simp

lemma binary64_quotient:
  "binary64 (3 / (6755399441055743 / 2 ^ 51)) = Fin (4503599627370497 / 2 ^ 52)"
  using binary64_eval [where k = 0 and m = 4503599627370497
      and x = "3 / (6755399441055743 / 2 ^ 51)"]
  by simp

lemma binary64_neg_quotient:
  "binary64 (- 3 / (6755399441055743 / 2 ^ 51)) = Fin (- (4503599627370497 / 2 ^ 52))"
  using binary64_eval [where k = 0 and m = "- 4503599627370497"
      and x = "- 3 / (6755399441055743 / 2 ^ 51)"]
  by simp

lemma corrcoef_loop_binary64_example:
  "corrcoef_loop binary64 [Fin 2, Fin 0, Fin 0, Fin 0, Fin (- 2), Fin 0, Fin 0, Fin 0] 0 4 4 sums_zero
     = Some \<lparr>s_x = Fin 2, s_y = Fin (- 2), s_xy = Fin (- 4), s_sq_x = Fin 4, s_sq_y = Fin 4\<rparr>"
  by (simp add: corrcoef_loop.simps rd_def accumulate_def sums_zero_def)

lemma binary64_variance_three:
  "dsub binary64 (Fin 4) (ddiv binary64 (dmul binary64 (Fin 2) (Fin 2)) (double_of_size binary64 4)) = Fin 3"
  "dsub binary64 (Fin 4) (ddiv binary64 (dmul binary64 (Fin (- 2)) (Fin (- 2))) (double_of_size binary64 4)) = Fin 3"
  "dsub binary64 (Fin (- 4)) (ddiv binary64 (dmul binary64 (Fin 2) (Fin (- 2))) (double_of_size binary64 4)) = Fin (- 3)"
  "dsub binary64 (Fin 4) (ddiv binary64 (dmul binary64 (Fin 2) (Fin 2)) (double_of_size binary64 4)) = Fin 3"
  by (simp_all add: dsub_def double_of_size_def)

lemma binary64_p_std_three:
  "dmul binary64 (dsqrt binary64 (Fin 3)) (dsqrt binary64 (Fin 3)) = Fin (6755399441055743 / 2 ^ 51)"
proof -
  have "dsqrt binary64 (Fin 3) = Fin (7800463371553962 / 2 ^ 52)"
    by (simp only: dsqrt.simps binary64_sqrt3) simp
  then show ?thesis
    by (simp only: dmul.simps binary64_sqrt3_squared)
qed

lemma binary64_p_std_nonzero: "deq (Fin (6755399441055743 / 2 ^ 51)) (Fin 0) = False"
  by simp

lemma binary64_coefficients:
  "ddiv binary64 (Fin 3) (Fin (6755399441055743 / 2 ^ 51)) = Fin (4503599627370497 / 2 ^ 52)"
  "ddiv binary64 (Fin (- 3)) (Fin (6755399441055743 / 2 ^ 51)) = Fin (- (4503599627370497 / 2 ^ 52))"
proof -
  have nz: "((6755399441055743 / 2 ^ 51 :: real) = 0) = False" by simp
  show "ddiv binary64 (Fin 3) (Fin (6755399441055743 / 2 ^ 51)) = Fin (4503599627370497 / 2 ^ 52)"
    by (simp only: ddiv.simps nz if_False binary64_quotient)
  show "ddiv binary64 (Fin (- 3)) (Fin (6755399441055743 / 2 ^ 51)) = Fin (- (4503599627370497 / 2 ^ 52))"
    by (simp only: ddiv.simps nz if_False binary64_neg_quotient)
qed

lemma corrcoef_binary64_negated:
  "corrcoef binary64 [Fin 2, Fin 0, Fin 0, Fin 0, Fin (- 2), Fin 0, Fin 0, Fin 0] 0 4 4
     = Some (Fin (- (4503599627370497 / 2 ^ 52)))"
proof -
  have z: "(0 :: size_t) + 4 = 4" by simp
  show ?thesis
    by (simp only: corrcoef_def Let_def z corrcoef_loop_binary64_example option.case
          accum.simps binary64_variance_three binary64_p_std_three binary64_p_std_nonzero
          if_False binary64_coefficients)
qed

lemma corrcoef_loop_binary64_same:
  "corrcoef_loop binary64 [Fin 2, Fin 0, Fin 0, Fin 0] 0 0 4 sums_zero
     = Some \<lparr>s_x = Fin 2, s_y = Fin 2, s_xy = Fin 4, s_sq_x = Fin 4, s_sq_y = Fin 4\<rparr>"
  by (simp add: corrcoef_loop.simps rd_def accumulate_def sums_zero_def)

lemma corrcoef_binary64_same:
  "corrcoef binary64 [Fin 2, Fin 0, Fin 0, Fin 0] 0 0 4 = Some (Fin (4503599627370497 / 2 ^ 52))"
proof -
  have z: "(0 :: size_t) + 4 = 4" by simp
  show ?thesis
    by (simp only: corrcoef_def Let_def z corrcoef_loop_binary64_same option.case
          accum.simps binary64_variance_three binary64_p_std_three binary64_p_std_nonzero
          if_False binary64_coefficients)
qed

subsection \<open>The sums in the arithmetic of the program\<close>

lemma fold_accumulate_sums:
  "fold (\<lambda>m s. accumulate rnd s (f m) (g m)) ms s =
     \<lparr>s_x = foldl (dadd rnd) (s_x s) (map f ms),
      s_y = foldl (dadd rnd) (s_y s) (map g ms),
      s_xy = foldl (dadd rnd) (s_xy s) (map (\<lambda>m. dmul rnd (f m) (g m)) ms),
      s_sq_x = foldl (dadd rnd) (s_sq_x s) (map (\<lambda>m. dmul rnd (f m) (f m)) ms),
      s_sq_y = foldl (dadd rnd) (s_sq_y s) (map (\<lambda>m. dmul rnd (g m) (g m)) ms)\<rparr>"
  by (induction ms arbitrary: s) (simp_all add: accumulate_def)

lemma window_nth:
  "off + n \<le> length buf \<Longrightarrow> window buf off n = map (\<lambda>m. buf ! (off + m)) [0..<n]"
  by (simp add: window_def list_eq_iff_nth_eq)

lemma map2_same_index: "map2 h (map f ms) (map g ms) = map (\<lambda>m. h (f m) (g m)) ms"
  by (induction ms) simp_all

lemma corrcoef_loop_sums:
  assumes "unat off_x + unat n \<le> length data" and "unat off_y + unat n \<le> length data"
    and "length data < 2 ^ 64"
  shows "corrcoef_loop rnd data off_x off_y (off_x + n) sums_zero
       = Some \<lparr>s_x = fl_sum rnd (window data (unat off_x) (unat n)),
               s_y = fl_sum rnd (window data (unat off_y) (unat n)),
               s_xy = fl_dot rnd (window data (unat off_x) (unat n)) (window data (unat off_y) (unat n)),
               s_sq_x = fl_dot rnd (window data (unat off_x) (unat n)) (window data (unat off_x) (unat n)),
               s_sq_y = fl_dot rnd (window data (unat off_y) (unat n)) (window data (unat off_y) (unat n))\<rparr>"
  unfolding corrcoef_as_fold [OF assms]
  by (simp add: fold_accumulate_sums sums_zero_def fl_sum_def fl_dot_def
      window_nth [OF assms(1)] window_nth [OF assms(2)] map2_same_index)

lemma corrcoef_formula:
  assumes "unat off_x + unat n \<le> length data" and "unat off_y + unat n \<le> length data"
    and "length data < 2 ^ 64"
  shows "corrcoef rnd data off_x off_y n
       = Some (if deq (fl_p_std rnd (window data (unat off_x) (unat n)) (window data (unat off_y) (unat n)) n) (Fin 0)
               then Fin (- 2)
               else ddiv rnd (fl_cov rnd (window data (unat off_x) (unat n)) (window data (unat off_y) (unat n)) n)
                      (fl_p_std rnd (window data (unat off_x) (unat n)) (window data (unat off_y) (unat n)) n))"
  by (simp add: corrcoef_def Let_def corrcoef_loop_sums [OF assms] fl_p_std_def fl_cov_def fl_variance_def
      fl_mean_square_def)

subsection \<open>Rounding to binary64, in general\<close>

lemma binary64_at:
  fixes e :: int
  assumes lo: "2 powr of_int e \<le> \<bar>x\<bar>" and hi: "\<bar>x\<bar> < 2 powr of_int (e + 1)"
    and e1: "- 1022 \<le> e" and e2: "e \<le> 1022"
  shows "binary64 x = Fin (of_int (rne (x / 2 powr of_int (e - 52))) * 2 powr of_int (e - 52))"
    and "\<bar>of_int (rne (x / 2 powr of_int (e - 52))) * 2 powr of_int (e - 52) - x\<bar> \<le> 2 powr of_int (e - 52) / 2"
proof -
  have "(0 :: real) < 2 powr of_int e" by simp
  with lo have pos: "0 < \<bar>x\<bar>" by linarith
  then have x0: "x \<noteq> 0" by auto
  have fl: "\<lfloor>log 2 \<bar>x\<bar>\<rfloor> = e"
    using floor_log_eq_powr_iff [OF pos, of 2 e] lo hi by simp
  have mx: "max \<lfloor>log 2 \<bar>x\<bar>\<rfloor> (- 1022) = e"
    using fl e1 by simp
  define u :: real where "u = 2 powr of_int (e - 52)"
  define m where "m = rne (x / u)"
  have u0: "0 < u" by (simp add: u_def)
  have near: "\<bar>of_int m - x / u\<bar> \<le> 1 / 2"
    unfolding m_def by (rule rne_near)
  have "of_int m * u - x = (of_int m - x / u) * u"
    using u0 by (simp add: field_simps)
  then have "\<bar>of_int m * u - x\<bar> = \<bar>of_int m - x / u\<bar> * u"
    using u0 by (simp add: abs_mult)
  also have "\<dots> \<le> 1 / 2 * u"
    using near u0 by (intro mult_right_mono) simp_all
  finally have err: "\<bar>of_int m * u - x\<bar> \<le> u / 2" by simp
  have "2 powr of_int (e + 1) \<le> (2 :: real) powr of_int 1023"
    using e2 by (intro powr_mono) simp_all
  moreover have "u \<le> (2 :: real) powr of_int 1023"
    unfolding u_def using e2 by (intro powr_mono) simp_all
  moreover have "(2 :: real) powr of_int 1023 = 2 ^ 1023"
    using powr_realpow [of 2 1023] by simp
  ultimately have "\<bar>x\<bar> < 2 ^ 1023" and "u \<le> 2 ^ 1023"
    using hi by simp_all
  with err have "\<bar>of_int m * u\<bar> < 2 ^ 1023 + 2 ^ 1023 / 2" by linarith
  then have fin: "\<not> 2 ^ 1024 \<le> \<bar>of_int m * u\<bar>" by simp
  show "binary64 x = Fin (of_int (rne (x / 2 powr of_int (e - 52))) * 2 powr of_int (e - 52))"
    unfolding binary64_def Let_def mx
    using x0 fin by (simp only: if_False m_def u_def)
  show "\<bar>of_int (rne (x / 2 powr of_int (e - 52))) * 2 powr of_int (e - 52) - x\<bar> \<le> 2 powr of_int (e - 52) / 2"
    using err by (simp only: m_def u_def)
qed

lemma two_powr_minus: "(2 :: real) powr (- real n) = 1 / 2 ^ n"
  by (simp only: powr_minus powr_realpow zero_less_numeral inverse_eq_divide)

lemma binary64_large:
  assumes lo: "2 ^ k \<le> \<bar>x\<bar>" and hi: "\<bar>x\<bar> < 2 ^ Suc k" and k: "52 \<le> k" "k \<le> 1022"
    and m: "of_int m - 1 / 2 < x / 2 ^ (k - 52)" "x / 2 ^ (k - 52) < of_int m + 1 / 2"
  shows "binary64 x = Fin (of_int m * 2 ^ (k - 52))"
proof -
  have p1: "(2 :: real) powr of_int (int k) = 2 ^ k"
    by (simp add: powr_realpow)
  have p2: "(2 :: real) powr of_int (int k + 1) = 2 ^ Suc k"
    using powr_realpow [of 2 "Suc k"] by (simp add: add.commute)
  have "int k - 52 = int (k - 52)" using k by simp
  then have p3: "(2 :: real) powr of_int (int k - 52) = 2 ^ (k - 52)"
    by (simp only: of_int_of_nat_eq powr_realpow zero_less_numeral)
  have a: "2 powr of_int (int k) \<le> \<bar>x\<bar>" using lo by (simp only: p1)
  have b: "\<bar>x\<bar> < 2 powr of_int (int k + 1)" using hi by (simp only: p2)
  have c: "- 1022 \<le> int k" by simp
  have d: "int k \<le> 1022" using k by simp
  show ?thesis
    using binary64_at(1) [OF a b c d] by (simp only: p3 rne_unique [OF m])
qed

lemma binary64_small:
  assumes lo: "1 \<le> \<bar>x\<bar> * 2 ^ j" and hi: "\<bar>x\<bar> * 2 ^ j < 2" and j: "j \<le> 1022"
    and m: "of_int m - 1 / 2 < x * 2 ^ (52 + j)" "x * 2 ^ (52 + j) < of_int m + 1 / 2"
  shows "binary64 x = Fin (of_int m / 2 ^ (52 + j))"
proof -
  have "real_of_int (- int j) = - real j" by simp
  then have p1: "(2 :: real) powr of_int (- int j) = 1 / 2 ^ j"
    by (simp only: two_powr_minus)
  have two: "(2 :: real) powr 1 = 2" by simp
  have "(2 :: real) powr of_int (- int j + 1) = 2 powr of_int (- int j) * 2 powr 1"
    by (simp only: of_int_add of_int_1 powr_add)
  also have "\<dots> = 1 / 2 ^ j * 2" by (simp only: p1 two)
  finally have p2: "(2 :: real) powr of_int (- int j + 1) = 2 / 2 ^ j" by simp
  have "- int j - 52 = - int (52 + j)" by simp
  then have "real_of_int (- int j - 52) = - real (52 + j)"
    by (simp only: of_int_minus of_int_of_nat_eq)
  then have p3: "(2 :: real) powr of_int (- int j - 52) = 1 / 2 ^ (52 + j)"
    by (simp only: two_powr_minus)
  have lo': "1 / 2 ^ j \<le> \<bar>x\<bar>" using lo by (simp add: field_simps)
  have hi': "\<bar>x\<bar> < 2 / 2 ^ j" using hi by (simp add: field_simps)
  have a: "2 powr of_int (- int j) \<le> \<bar>x\<bar>" using lo' by (simp only: p1)
  have b: "\<bar>x\<bar> < 2 powr of_int (- int j + 1)" using hi' by (simp only: p2)
  have c: "- 1022 \<le> - int j" using j by simp
  have d: "- int j \<le> 1022" by simp
  have e: "x / (1 / 2 ^ (52 + j)) = x * 2 ^ (52 + j)" by simp
  show ?thesis
    using binary64_at(1) [OF a b c d] by (simp only: p3 e rne_unique [OF m]) simp
qed

lemma binary64_rel_error:
  assumes lo: "1 / 2 ^ 1022 \<le> \<bar>x\<bar>" and hi: "\<bar>x\<bar> < 2 ^ 1023"
  shows "\<exists>y. binary64 x = Fin y \<and> \<bar>y - x\<bar> \<le> \<bar>x\<bar> / 2 ^ 53"
proof -
  have "(0 :: real) < 1 / 2 ^ 1022" by simp
  with lo have pos: "0 < \<bar>x\<bar>" by linarith
  define e where "e = \<lfloor>log 2 \<bar>x\<bar>\<rfloor>"
  have b: "2 powr of_int e \<le> \<bar>x\<bar>" "\<bar>x\<bar> < 2 powr of_int (e + 1)"
    using floor_log_eq_powr_iff [OF pos, of 2 e] by (simp_all add: e_def)
  have "(2 :: real) powr (- real (1022 :: nat)) = 1 / 2 ^ 1022"
    by (rule two_powr_minus)
  then have "(2 :: real) powr of_int (- 1022) \<le> \<bar>x\<bar>" using lo by simp
  with b(2) have "(2 :: real) powr of_int (- 1022) < 2 powr of_int (e + 1)" by linarith
  then have "real_of_int (- 1022) < of_int (e + 1)" by (simp only: powr_less_cancel_iff one_less_numeral_iff semiring_norm)
  then have e1: "- 1022 \<le> e" by linarith
  have "(2 :: real) powr of_int 1023 = 2 ^ 1023"
    using powr_realpow [of 2 1023] by simp
  with hi b(1) have "(2 :: real) powr of_int e < 2 powr of_int 1023" by linarith
  then have "real_of_int e < of_int 1023" by (simp only: powr_less_cancel_iff one_less_numeral_iff semiring_norm)
  then have e2: "e \<le> 1022" by linarith
  let ?y = "of_int (rne (x / 2 powr of_int (e - 52))) * 2 powr of_int (e - 52)"
  note at = binary64_at [OF b e1 e2]
  have "(2 :: real) powr of_int (e - 52) = 2 powr of_int e * 2 powr (- 52)"
    by (simp only: of_int_diff powr_add [symmetric]) simp
  also have "(2 :: real) powr (- 52) = 1 / 2 ^ 52"
    using two_powr_minus [of 52] by simp
  finally have "(2 :: real) powr of_int (e - 52) / 2 = 2 powr of_int e / 2 ^ 53" by simp
  also have "\<dots> \<le> \<bar>x\<bar> / 2 ^ 53"
    using b(1) by (intro divide_right_mono) simp_all
  finally have "\<bar>?y - x\<bar> \<le> \<bar>x\<bar> / 2 ^ 53" using at(2) by linarith
  with at(1) show ?thesis by blast
qed

lemma rne_minus: "rne (- z) = - rne z"
proof (cases "z - of_int \<lfloor>z\<rfloor> = 1 / 2")
  case True
  have a: "real_of_int (- \<lfloor>z\<rfloor> - 1) = - real_of_int \<lfloor>z\<rfloor> - 1" by simp
  have "real_of_int (- \<lfloor>z\<rfloor> - 1) \<le> - z" and "- z < real_of_int (- \<lfloor>z\<rfloor> - 1) + 1"
    using True unfolding a by linarith+
  then have "\<lfloor>- z\<rfloor> = - \<lfloor>z\<rfloor> - 1"
    by (rule floor_unique)
  moreover have "even (- \<lfloor>z\<rfloor> - 1) \<longleftrightarrow> odd \<lfloor>z\<rfloor>" by simp
  ultimately show ?thesis
    using True by (simp add: rne_def Let_def)
next
  case False
  have "of_int \<lfloor>z\<rfloor> \<le> z" and "z < of_int \<lfloor>z\<rfloor> + 1" by linarith+
  then have "\<bar>of_int (rne z) - z\<bar> < 1 / 2"
    using False by (auto simp: rne_def Let_def)
  then have "real_of_int (- rne z) - 1 / 2 < - z" and "- z < real_of_int (- rne z) + 1 / 2"
    unfolding of_int_minus by linarith+
  then show ?thesis by (rule rne_unique)
qed

lemma binary64_minus: "binary64 (- x) = dneg (binary64 x)"
  by (simp add: binary64_def Let_def rne_minus)

lemma rne_nonneg: "0 \<le> z \<Longrightarrow> 0 \<le> rne z"
  by (auto simp: rne_def Let_def)

lemma binary64_nonneg: "0 \<le> x \<Longrightarrow> nonneg (binary64 x)"
  by (auto simp: binary64_def Let_def rne_nonneg)

lemma rne_tie: "rne (of_int f + 1 / 2) = (if even f then f else f + 1)"
proof -
  have "\<lfloor>real_of_int f + 1 / 2\<rfloor> = f" by (intro floor_unique) simp_all
  then show ?thesis by (simp add: rne_def Let_def)
qed

lemma binary64_large_tie:
  assumes lo: "2 ^ k \<le> \<bar>x\<bar>" and hi: "\<bar>x\<bar> < 2 ^ Suc k" and k: "52 \<le> k" "k \<le> 1022"
    and f: "x / 2 ^ (k - 52) = of_int f + 1 / 2"
  shows "binary64 x = Fin (of_int (if even f then f else f + 1) * 2 ^ (k - 52))"
proof -
  have p1: "(2 :: real) powr of_int (int k) = 2 ^ k"
    by (simp add: powr_realpow)
  have p2: "(2 :: real) powr of_int (int k + 1) = 2 ^ Suc k"
    using powr_realpow [of 2 "Suc k"] by (simp add: add.commute)
  have "int k - 52 = int (k - 52)" using k by simp
  then have p3: "(2 :: real) powr of_int (int k - 52) = 2 ^ (k - 52)"
    by (simp only: of_int_of_nat_eq powr_realpow zero_less_numeral)
  have a: "2 powr of_int (int k) \<le> \<bar>x\<bar>" using lo by (simp only: p1)
  have b: "\<bar>x\<bar> < 2 powr of_int (int k + 1)" using hi by (simp only: p2)
  have c: "- 1022 \<le> int k" by simp
  have d: "int k \<le> 1022" using k by simp
  show ?thesis
    using binary64_at(1) [OF a b c d] by (simp only: p3 f rne_tie)
qed

subsection \<open>The quotient of a value by the square of its rounded root\<close>

lemma rounded_quotient_bounds:
  fixes r s p u :: real
  assumes r: "0 < r" and u: "0 \<le> u" "u < 1"
    and s: "\<bar>s - r\<bar> \<le> u * r" and p: "\<bar>p - s * s\<bar> \<le> u * (s * s)"
  shows "0 < s" and "(1 - u) * r \<le> s" and "s \<le> (1 + u) * r"
    and "0 < p" and "1 / (1 + u) ^ 3 \<le> r * r / p" and "r * r / p \<le> 1 / (1 - u) ^ 3"
proof -
  have s1: "(1 - u) * r \<le> s" and s2: "s \<le> (1 + u) * r"
    using s by (simp_all add: abs_le_iff algebra_simps)
  have lo0: "0 < (1 - u) * r" using r u by simp
  with s1 show spos: "0 < s" by linarith
  show "(1 - u) * r \<le> s" by (rule s1)
  show "s \<le> (1 + u) * r" by (rule s2)
  have ss1: "((1 - u) * r) * ((1 - u) * r) \<le> s * s"
    using s1 lo0 by (intro mult_mono) simp_all
  have ss2: "s * s \<le> ((1 + u) * r) * ((1 + u) * r)"
    using s2 spos by (intro mult_mono) simp_all
  have p1: "(1 - u) * (s * s) \<le> p" and p2: "p \<le> (1 + u) * (s * s)"
    using p by (simp_all add: abs_le_iff algebra_simps)
  have "(1 - u) * (((1 - u) * r) * ((1 - u) * r)) \<le> (1 - u) * (s * s)"
    using ss1 u by (intro mult_left_mono) simp_all
  with p1 have pl: "(1 - u) ^ 3 * (r * r) \<le> p"
    by (simp add: power3_eq_cube algebra_simps)
  have "(1 + u) * (s * s) \<le> (1 + u) * (((1 + u) * r) * ((1 + u) * r))"
    using ss2 u by (intro mult_left_mono) simp_all
  with p2 have pu: "p \<le> (1 + u) ^ 3 * (r * r)"
    by (simp add: power3_eq_cube algebra_simps)
  have rr: "0 < r * r" using r by simp
  have c1: "0 < (1 - u) ^ 3" using u by simp
  have c2: "0 < (1 + u) ^ 3" using u by simp
  have "0 < (1 - u) ^ 3 * (r * r)" using c1 rr by simp
  with pl show ppos: "0 < p" by linarith
  have "r * r / ((1 + u) ^ 3 * (r * r)) \<le> r * r / p"
    using pu ppos rr by (intro divide_left_mono) simp_all
  moreover have "r * r / ((1 + u) ^ 3 * (r * r)) = 1 / (1 + u) ^ 3"
    using r by simp
  ultimately show "1 / (1 + u) ^ 3 \<le> r * r / p" by simp
  have "r * r / p \<le> r * r / ((1 - u) ^ 3 * (r * r))"
    using pl ppos rr c1 by (intro divide_left_mono) simp_all
  moreover have "r * r / ((1 - u) ^ 3 * (r * r)) = 1 / (1 - u) ^ 3"
    using r by simp
  ultimately show "r * r / p \<le> 1 / (1 - u) ^ 3" by simp
qed

lemma rounded_value_bounds:
  fixes q x u lo hi :: real
  assumes "\<bar>q - x\<bar> \<le> u * x" and "0 \<le> u" "u < 1" and "lo \<le> x" "x \<le> hi" and "0 \<le> lo"
  shows "(1 - u) * lo \<le> q" and "q \<le> (1 + u) * hi"
proof -
  have q1: "(1 - u) * x \<le> q" and q2: "q \<le> (1 + u) * x"
    using assms(1) by (simp_all add: abs_le_iff algebra_simps)
  have "(1 - u) * lo \<le> (1 - u) * x"
    using assms by (intro mult_left_mono) simp_all
  with q1 show "(1 - u) * lo \<le> q" by linarith
  have "(1 + u) * x \<le> (1 + u) * hi"
    using assms by (intro mult_left_mono) simp_all
  with q2 show "q \<le> (1 + u) * hi" by linarith
qed

lemma binary64_unit_quotient:
  assumes lo: "1 / 2 ^ 1000 \<le> a" and hi: "a \<le> 2 ^ 1000"
  shows "\<exists>p q. dmul binary64 (dsqrt binary64 (Fin a)) (dsqrt binary64 (Fin a)) = Fin p \<and> 0 < p
           \<and> ddiv binary64 (Fin a) (Fin p) = Fin q \<and> \<bar>q - 1\<bar> \<le> 1 / 2 ^ 50"
proof -
  define u :: real where "u = 1 / 2 ^ 53"
  have u: "0 \<le> u" "u < 1" by (simp_all add: u_def)
  have "(0 :: real) < 1 / 2 ^ 1000" by simp
  with lo have apos: "0 < a" by linarith
  define r where "r = sqrt a"
  have rpos: "0 < r" using apos by (simp add: r_def)
  have rr: "r * r = a" using apos by (simp add: r_def)
  have "sqrt (1 / 2 ^ 1000) = 1 / 2 ^ 500"
    by (rule real_sqrt_unique) (simp_all add: power_divide)
  moreover have "sqrt (1 / 2 ^ 1000) \<le> sqrt a"
    using lo by (simp only: real_sqrt_le_iff)
  ultimately have r_lo: "1 / 2 ^ 500 \<le> r" by (simp only: r_def)
  have "sqrt (2 ^ 1000) = (2 :: real) ^ 500"
    by (rule real_sqrt_unique) simp_all
  moreover have "sqrt a \<le> sqrt (2 ^ 1000)"
    using hi by (simp only: real_sqrt_le_iff)
  ultimately have r_hi: "r \<le> 2 ^ 500" by (simp only: r_def)
  have "(1 :: real) / 2 ^ 1022 \<le> 1 / 2 ^ 500" by simp
  with r_lo rpos have r1: "1 / 2 ^ 1022 \<le> \<bar>r\<bar>" by linarith
  have "(2 :: real) ^ 500 < 2 ^ 1023" by simp
  with r_hi rpos have r2: "\<bar>r\<bar> < 2 ^ 1023" by linarith
  obtain s where s: "binary64 r = Fin s" and sr: "\<bar>s - r\<bar> \<le> \<bar>r\<bar> / 2 ^ 53"
    using binary64_rel_error [OF r1 r2] by blast
  have s': "\<bar>s - r\<bar> \<le> u * r"
    using sr rpos by (simp add: u_def)
  have s1: "(1 - u) * r \<le> s" and s2: "s \<le> (1 + u) * r"
    using s' by (simp_all add: abs_le_iff algebra_simps)
  have "1 / 2 * r \<le> (1 - u) * r"
    using rpos by (intro mult_right_mono) (simp_all add: u_def)
  moreover have h1: "(1 :: real) / 2 ^ 501 = 1 / 2 * (1 / 2 ^ 500)" by simp
  ultimately have s_lo: "1 / 2 ^ 501 \<le> s" using s1 r_lo unfolding h1 by linarith
  have "(1 + u) * r \<le> 2 * r"
    using rpos by (intro mult_right_mono) (simp_all add: u_def)
  moreover have h2: "(2 :: real) ^ 501 = 2 * 2 ^ 500" by simp
  ultimately have s_hi: "s \<le> 2 ^ 501" using s2 r_hi unfolding h2 by linarith
  have spos: "0 < s"
  proof -
    have "(0 :: real) < 1 / 2 ^ 501" by simp
    with s_lo show ?thesis by linarith
  qed
  have "(1 / 2 ^ 501) * (1 / 2 ^ 501) \<le> s * s"
    using s_lo by (intro mult_mono) simp_all
  moreover have "(1 :: real) / 2 ^ 1022 \<le> (1 / 2 ^ 501) * (1 / 2 ^ 501)" by simp
  ultimately have ss1: "1 / 2 ^ 1022 \<le> \<bar>s * s\<bar>" by simp
  have "s * s \<le> 2 ^ 501 * 2 ^ 501"
    using s_hi spos by (intro mult_mono) simp_all
  moreover have "(2 :: real) ^ 501 * 2 ^ 501 < 2 ^ 1023" by simp
  ultimately have ss2: "\<bar>s * s\<bar> < 2 ^ 1023" by simp
  obtain p where p: "binary64 (s * s) = Fin p" and ps: "\<bar>p - s * s\<bar> \<le> \<bar>s * s\<bar> / 2 ^ 53"
    using binary64_rel_error [OF ss1 ss2] by blast
  have p': "\<bar>p - s * s\<bar> \<le> u * (s * s)"
    using ps by (simp add: u_def)
  note b = rounded_quotient_bounds [OF rpos u s' p']
  have ppos: "0 < p" by (rule b(4))
  have q_lo: "1 / (1 + u) ^ 3 \<le> a / p" and q_hi: "a / p \<le> 1 / (1 - u) ^ 3"
    using b(5,6) by (simp_all only: rr)
  have n1: "(1 :: real) / 8 \<le> 1 / (1 + u) ^ 3" and n2: "1 / (1 - u) ^ 3 \<le> (8 :: real)"
    by (simp_all add: u_def power_divide)
  have ap: "0 < a / p" using apos ppos by simp
  have a1: "1 / 2 ^ 1022 \<le> \<bar>a / p\<bar>"
  proof -
    have "(1 :: real) / 2 ^ 1022 \<le> 1 / 8" by simp
    with n1 q_lo ap show ?thesis by linarith
  qed
  have a2: "\<bar>a / p\<bar> < 2 ^ 1023"
  proof -
    have "(8 :: real) < 2 ^ 1023" by simp
    with n2 q_hi ap show ?thesis by linarith
  qed
  obtain q where q: "binary64 (a / p) = Fin q" and qa: "\<bar>q - a / p\<bar> \<le> \<bar>a / p\<bar> / 2 ^ 53"
    using binary64_rel_error [OF a1 a2] by blast
  have q': "\<bar>q - a / p\<bar> \<le> u * (a / p)"
    using qa ap by (simp add: u_def)
  have c0: "(0 :: real) \<le> 1 / (1 + u) ^ 3" using u by simp
  note c = rounded_value_bounds [OF q' u q_lo q_hi c0]
  have m1: "1 - 1 / 2 ^ 50 \<le> (1 - u) * (1 / (1 + u) ^ 3)"
    and m2: "(1 + u) * (1 / (1 - u) ^ 3) \<le> 1 + 1 / 2 ^ 50"
    by (simp_all add: u_def power_divide)
  from c m1 m2 have bound: "\<bar>q - 1\<bar> \<le> 1 / 2 ^ 50" by linarith
  have "dsqrt binary64 (Fin a) = Fin s"
    using apos s by (simp add: r_def)
  then have "dmul binary64 (dsqrt binary64 (Fin a)) (dsqrt binary64 (Fin a)) = Fin p"
    using p by simp
  moreover have "ddiv binary64 (Fin a) (Fin p) = Fin q"
    using ppos q by simp
  ultimately show ?thesis using ppos bound by blast
qed

subsection \<open>A window against itself and against its negation\<close>

lemma odd_rounding_exact: "odd_rounding exact"
  by (simp add: odd_rounding_def)

lemma odd_rounding_binary64: "odd_rounding binary64"
  by (simp add: odd_rounding_def binary64_minus)

lemma corrcoef_self_formula:
  assumes "unat off + unat n \<le> length data" and "length data < 2 ^ 64"
  shows "corrcoef rnd data off off n
       = Some (if deq (dmul rnd (dsqrt rnd (fl_variance rnd (window data (unat off) (unat n)) n))
                         (dsqrt rnd (fl_variance rnd (window data (unat off) (unat n)) n))) (Fin 0)
               then Fin (- 2)
               else ddiv rnd (fl_variance rnd (window data (unat off) (unat n)) n)
                      (dmul rnd (dsqrt rnd (fl_variance rnd (window data (unat off) (unat n)) n))
                         (dsqrt rnd (fl_variance rnd (window data (unat off) (unat n)) n))))"
  using corrcoef_formula [OF assms(1) assms(1) assms(2), of rnd]
  by (simp add: fl_p_std_def fl_cov_def fl_variance_def fl_mean_square_def)

lemma dadd_dneg:
  assumes "odd_rounding rnd"
  shows "dadd rnd (dneg a) (dneg b) = dneg (dadd rnd a b)"
proof (cases a; cases b)
  fix x y assume "a = Fin x" and "b = Fin y"
  moreover have "rnd (- x + - y) = dneg (rnd (x + y))"
    using assms unfolding odd_rounding_def by (simp only: minus_add_distrib [symmetric])
  ultimately show ?thesis by (simp only: dneg.simps dadd.simps)
qed simp_all

lemma dmul_dneg_right:
  assumes "odd_rounding rnd"
  shows "dmul rnd a (dneg b) = dneg (dmul rnd a b)"
proof (cases a; cases b)
  fix x y assume "a = Fin x" and "b = Fin y"
  moreover have "rnd (x * - y) = dneg (rnd (x * y))"
    using assms unfolding odd_rounding_def by (simp only: mult_minus_right)
  ultimately show ?thesis by (simp only: dneg.simps dmul.simps)
qed auto

lemma dmul_dneg_both: "dmul rnd (dneg a) (dneg b) = dmul rnd a b"
  by (cases a; cases b) auto

lemma ddiv_dneg_left:
  assumes "odd_rounding rnd"
  shows "ddiv rnd (dneg a) b = dneg (ddiv rnd a b)"
proof (cases a; cases b)
  fix x y assume ab: "a = Fin x" "b = Fin y"
  have "rnd (- x / y) = dneg (rnd (x / y))"
    using assms unfolding odd_rounding_def by (simp only: minus_divide_left [symmetric])
  then show ?thesis using ab by auto
qed auto

lemma foldl_dadd_dneg:
  assumes "odd_rounding rnd"
  shows "foldl (dadd rnd) (dneg a) (map dneg xs) = dneg (foldl (dadd rnd) a xs)"
  by (induction xs arbitrary: a) (simp_all add: dadd_dneg [OF assms])

lemma fl_sum_dneg:
  assumes "odd_rounding rnd"
  shows "fl_sum rnd (map dneg xs) = dneg (fl_sum rnd xs)"
  using foldl_dadd_dneg [OF assms, of "Fin 0" xs] by (simp add: fl_sum_def)

lemma map2_dneg_right:
  assumes "odd_rounding rnd"
  shows "map2 (dmul rnd) xs (map dneg xs) = map dneg (map2 (dmul rnd) xs xs)"
  by (induction xs) (simp_all add: dmul_dneg_right [OF assms])

lemma map2_dneg_both: "map2 (dmul rnd) (map dneg xs) (map dneg xs) = map2 (dmul rnd) xs xs"
  by (induction xs) (simp_all add: dmul_dneg_both)

lemma negated_fl_sums:
  assumes "odd_rounding rnd"
  shows "fl_dot rnd xs (map dneg xs) = dneg (fl_dot rnd xs xs)"
    and "fl_dot rnd (map dneg xs) (map dneg xs) = fl_dot rnd xs xs"
    and "fl_variance rnd (map dneg xs) n = fl_variance rnd xs n"
    and "fl_cov rnd xs (map dneg xs) n = dneg (fl_variance rnd xs n)"
proof -
  show d1: "fl_dot rnd xs (map dneg xs) = dneg (fl_dot rnd xs xs)"
    by (simp only: fl_dot_def map2_dneg_right [OF assms] fl_sum_dneg [OF assms])
  show d2: "fl_dot rnd (map dneg xs) (map dneg xs) = fl_dot rnd xs xs"
    by (simp only: fl_dot_def map2_dneg_both)
  show "fl_variance rnd (map dneg xs) n = fl_variance rnd xs n"
    by (simp only: fl_variance_def fl_mean_square_def d2 fl_sum_dneg [OF assms] dmul_dneg_both)
  show "fl_cov rnd xs (map dneg xs) n = dneg (fl_variance rnd xs n)"
    by (simp only: fl_cov_def fl_variance_def fl_mean_square_def d1 fl_sum_dneg [OF assms]
          dmul_dneg_right [OF assms] ddiv_dneg_left [OF assms] dsub_def dadd_dneg [OF assms])
qed

lemma negated_window:
  assumes "unat off_x + unat n \<le> length data" and "unat off_y + unat n \<le> length data"
    and "\<forall>k<unat n. data ! (unat off_y + k) = dneg (data ! (unat off_x + k))"
  shows "window data (unat off_y) (unat n) = map dneg (window data (unat off_x) (unat n))"
  using assms(3) by (simp add: window_nth [OF assms(1)] window_nth [OF assms(2)])

lemma corrcoef_negated_formula:
  assumes odd: "odd_rounding rnd"
    and inx: "unat off_x + unat n \<le> length data" and iny: "unat off_y + unat n \<le> length data"
    and len: "length data < 2 ^ 64"
    and neg: "\<forall>k<unat n. data ! (unat off_y + k) = dneg (data ! (unat off_x + k))"
  shows "corrcoef rnd data off_x off_y n
       = Some (if deq (dmul rnd (dsqrt rnd (fl_variance rnd (window data (unat off_x) (unat n)) n))
                         (dsqrt rnd (fl_variance rnd (window data (unat off_x) (unat n)) n))) (Fin 0)
               then Fin (- 2)
               else dneg (ddiv rnd (fl_variance rnd (window data (unat off_x) (unat n)) n)
                      (dmul rnd (dsqrt rnd (fl_variance rnd (window data (unat off_x) (unat n)) n))
                         (dsqrt rnd (fl_variance rnd (window data (unat off_x) (unat n)) n)))))"
  by (simp only: corrcoef_formula [OF inx iny len] negated_window [OF inx iny neg]
        negated_fl_sums [OF odd] fl_p_std_def ddiv_dneg_left [OF odd])

lemma corrcoef_negated_exact:
  assumes "unat off_x + unat n \<le> length xs" and "unat off_y + unat n \<le> length xs"
    and "length xs < 2 ^ 64"
    and "\<forall>k<unat n. xs ! (unat off_y + k) = - xs ! (unat off_x + k)"
    and "win_dot xs (unat off_x) (unat off_x) (unat n) - mean_square xs (unat off_x) (unat n) \<noteq> 0"
  shows "corrcoef exact (map Fin xs) off_x off_y n = Some (Fin (- 1))"
proof -
  let ?v = "win_dot xs (unat off_x) (unat off_x) (unat n) - mean_square xs (unat off_x) (unat n)"
  have n0: "0 < n"
  proof (rule ccontr)
    assume "\<not> 0 < n"
    then have "unat n = 0" by (simp add: word_greater_zero_iff)
    then have "?v = 0" by (simp add: win_dot_def mean_square_def)
    with assms(5) show False by simp
  qed
  have vpos: "0 \<le> ?v" by (rule variance_nonneg)
  have cov: "pearson_cov xs (unat off_x) (unat off_y) (unat n) = - ?v"
    by (simp add: pearson_cov_def mean_square_def power2_eq_square negated_window_sums [OF assms(4)])
  have std: "pearson_p_std xs (unat off_x) (unat off_y) (unat n) = ?v"
    using vpos
    by (simp add: pearson_p_std_def mean_square_def negated_window_sums [OF assms(4)])
  from assms(5) have nz: "(?v = 0) = False" by simp
  have "corrcoef exact (map Fin xs) off_x off_y n = Some (Fin (- ?v / ?v))"
    using corrcoef_Fin [OF assms(1-3) n0] by (simp only: cov std nz if_False)
  moreover have "- ?v / ?v = - 1"
    by (rule neg_self_quotient [OF assms(5)])
  ultimately show ?thesis by simp
qed

lemmas fl_eval =
  window_def fl_sum_def fl_dot_def fl_cov_def fl_mean_square_def fl_variance_def fl_p_std_def
  double_of_size_def dsub_def

subsection \<open>Facts about the cells\<close>

lemma pow_nonneg_exact: "pow_nonneg (dpow exact)"
proof -
  have "nonneg (dpow exact r 4)" if "dgt r (Fin 0)" for r
    using that by (cases r) simp_all
  then show ?thesis by (simp add: pow_nonneg_def)
qed

lemma pow_nonneg_binary64: "pow_nonneg (dpow binary64)"
proof -
  have "nonneg (dpow binary64 r 4)" if "dgt r (Fin 0)" for r
    using that by (cases r) (simp_all add: binary64_nonneg)
  then show ?thesis by (simp add: pow_nonneg_def)
qed

lemma cell_value_nonneg: "pow_nonneg pw \<Longrightarrow> nonneg (cell_value pw r)"
  by (simp add: cell_value_def pow_nonneg_def)

lemma correlogram_delay_nonneg_cells:
  assumes ok: "delay_call_ok sig delays wlen D T cgram"
    and pw: "pow_nonneg pw"
    and res: "correlogram_delay rnd pw sig delays wlen [D, T] cgram = Some (1, cgram')"
    and i: "i < unat D" and t: "t < unat T"
  shows "nonneg (cgram' ! (i * unat T + t))"
proof -
  let ?\<rho> = "cell_coef rnd sig delays wlen (unat T)"
  let ?N = "unat D * unat T"
  let ?k = "i * unat T + t"
  have "finish (fill pw ?\<rho> [0..<?N] cgram) = (1, cgram')"
    using res by (simp add: correlogram_delay_as_fill [OF ok])
  then have c': "cgram' = fold (\<lambda>k c. c[k := cell_value pw (?\<rho> k)]) [0..<?N] cgram"
    using finish_success by blast
  have k: "?k < ?N" using i t by (intro row_major_less)
  have room: "?N \<le> length cgram"
    using ok by (simp add: delay_call_ok_def)
  have "cgram' ! ?k = cell_value pw (?\<rho> ?k)"
    using k room by (simp add: c' nth_fold_update)
  then show ?thesis by (simp add: cell_value_nonneg [OF pw])
qed

lemma correlogram_nonneg_cells:
  assumes ok: "range_call_ok sig wlen D T cgram"
    and pw: "pow_nonneg pw"
    and res: "correlogram rnd pw sig wlen [D, T] cgram = Some (1, cgram')"
    and d: "1 \<le> d" "d < unat D" and t: "t < unat T"
  shows "nonneg (cgram' ! ((d - 1) * unat T + t))"
proof -
  have D: "D \<noteq> 0" using d by (auto simp: unat_gt_0 [symmetric])
  have u: "unat (D - 1) = unat D - 1"
    using D by (simp add: unat_minus_one)
  have "d - 1 < unat (D - 1)" using d by (simp add: u)
  then show ?thesis
    using correlogram_delay_nonneg_cells [OF range_call_as_delay [OF ok D] pw _ _ t, of rnd cgram' "d - 1"] res
    by (simp add: correlogram_as_delay [OF D])
qed

lemma cell_exact:
  assumes "t + unat (dl :: size_t) + unat (wlen :: size_t) \<le> length xs" and "length xs < 2 ^ 64"
    and "0 < wlen"
  shows "corrcoef exact (map Fin xs) (of_nat t) (of_nat t + dl) wlen
       = Some (if pearson_p_std xs t (t + unat dl) (unat wlen) = 0 then Fin (- 2)
               else Fin (pearson_cov xs t (t + unat dl) (unat wlen)
                         / pearson_p_std xs t (t + unat dl) (unat wlen)))"
proof -
  have t: "unat (of_nat t :: size_t) = t"
    using assms by (simp add: unat_of_nat)
  have "unat (dl + of_nat t) = unat dl + t"
    using assms by (intro unat_add_of_nat) simp
  then have s: "unat (of_nat t + dl) = t + unat dl"
    by (simp add: add.commute)
  have "corrcoef exact (map Fin xs) (of_nat t) (of_nat t + dl) wlen
      = Some (if pearson_p_std xs (unat (of_nat t :: size_t)) (unat (of_nat t + dl)) (unat wlen) = 0 then Fin (- 2)
              else Fin (pearson_cov xs (unat (of_nat t :: size_t)) (unat (of_nat t + dl)) (unat wlen)
                        / pearson_p_std xs (unat (of_nat t :: size_t)) (unat (of_nat t + dl)) (unat wlen)))"
    using assms by (intro corrcoef_Fin) (simp_all add: t s)
  then show ?thesis by (simp only: t s)
qed

lemma cell_exact_regular:
  assumes "t + unat (dl :: size_t) + unat (wlen :: size_t) \<le> length xs" and "length xs < 2 ^ 64"
    and "0 < wlen" and "pearson_p_std xs t (t + unat dl) (unat wlen) \<noteq> 0"
  shows "corrcoef exact (map Fin xs) (of_nat t) (of_nat t + dl) wlen
       = Some (Fin (pearson_cov xs t (t + unat dl) (unat wlen) / pearson_p_std xs t (t + unat dl) (unat wlen)))"
    and "corrcoef exact (map Fin xs) (of_nat t) (of_nat t + dl) wlen \<noteq> Some (Fin (- 2))"
proof -
  show e: "corrcoef exact (map Fin xs) (of_nat t) (of_nat t + dl) wlen
       = Some (Fin (pearson_cov xs t (t + unat dl) (unat wlen) / pearson_p_std xs t (t + unat dl) (unat wlen)))"
    using cell_exact [OF assms(1-3)] assms(4) by simp
  have "0 < unat wlen" using assms(3) by (simp add: unat_gt_0)
  then have "- 1 \<le> pearson_cov xs t (t + unat dl) (unat wlen) / pearson_p_std xs t (t + unat dl) (unat wlen)"
    using assms(4) by (intro corrcoef_range(1))
  then show "corrcoef exact (map Fin xs) (of_nat t) (of_nat t + dl) wlen \<noteq> Some (Fin (- 2))"
    by (simp add: e)
qed

subsection \<open>Evaluations in binary64\<close>

lemma rounded_integer_0: "binary64 (- 10000000200000000) = Fin (- 10000000200000000)"
  using binary64_large [where k = 53 and m = "- 5000000100000000" and x = "- 10000000200000000"]
  by simp

lemma rounded_integer_1: "binary64 (10000000200000000) = Fin (10000000200000000)"
  using binary64_large [where k = 53 and m = "5000000100000000" and x = "10000000200000000"]
  by simp

lemma rounded_integer_2: "binary64 (- 10000000200000001) = Fin (- 10000000200000000)"
  using binary64_large_tie [where k = 53 and f = "- 5000000100000001" and x = "- 10000000200000001"]
  by simp

lemma rounded_integer_3: "binary64 (10000000200000001) = Fin (10000000200000000)"
  using binary64_large_tie [where k = 53 and f = "5000000100000000" and x = "10000000200000001"]
  by simp

lemma rounded_integer_4: "binary64 (10000000300000002) = Fin (10000000300000002)"
  using binary64_large [where k = 53 and m = "5000000150000001" and x = "10000000300000002"]
  by simp

lemma rounded_integer_5: "binary64 (- 10000000400000004) = Fin (- 10000000400000004)"
  using binary64_large [where k = 53 and m = "- 5000000200000002" and x = "- 10000000400000004"]
  by simp

lemma rounded_integer_6: "binary64 (10000000400000004) = Fin (10000000400000004)"
  using binary64_large [where k = 53 and m = "5000000200000002" and x = "10000000400000004"]
  by simp

lemma rounded_integer_7: "binary64 (10000000500000004) = Fin (10000000500000004)"
  using binary64_large [where k = 53 and m = "5000000250000002" and x = "10000000500000004"]
  by simp

lemma rounded_integer_8: "binary64 (10000000600000009) = Fin (10000000600000008)"
  using binary64_large_tie [where k = 53 and f = "5000000300000004" and x = "10000000600000009"]
  by simp

lemma rounded_integer_9: "binary64 (10000000700000006) = Fin (10000000700000006)"
  using binary64_large [where k = 53 and m = "5000000350000003" and x = "10000000700000006"]
  by simp

lemma rounded_integer_10: "binary64 (10000000700000012) = Fin (10000000700000012)"
  using binary64_large [where k = 53 and m = "5000000350000006" and x = "10000000700000012"]
  by simp

lemma rounded_integer_11: "binary64 (10000000800000016) = Fin (10000000800000016)"
  using binary64_large [where k = 53 and m = "5000000400000008" and x = "10000000800000016"]
  by simp

lemma rounded_integer_12: "binary64 (10000000900000020) = Fin (10000000900000020)"
  using binary64_large [where k = 53 and m = "5000000450000010" and x = "10000000900000020"]
  by simp

lemma rounded_integer_13: "binary64 (10000001000000024) = Fin (10000001000000024)"
  using binary64_large [where k = 53 and m = "5000000500000012" and x = "10000001000000024"]
  by simp

lemma rounded_integer_14: "binary64 (10000001000000025) = Fin (10000001000000024)"
  using binary64_large_tie [where k = 53 and f = "5000000500000012" and x = "10000001000000025"]
  by simp

lemma rounded_integer_15: "binary64 (10000001200000036) = Fin (10000001200000036)"
  using binary64_large [where k = 53 and m = "5000000600000018" and x = "10000001200000036"]
  by simp

lemma rounded_integer_16: "binary64 (20000000400000000) = Fin (20000000400000000)"
  using binary64_large [where k = 54 and m = "5000000100000000" and x = "20000000400000000"]
  by simp

lemma rounded_integer_17: "binary64 (- 20000000600000004) = Fin (- 20000000600000004)"
  using binary64_large [where k = 54 and m = "- 5000000150000001" and x = "- 20000000600000004"]
  by simp

lemma rounded_integer_18: "binary64 (20000000600000004) = Fin (20000000600000004)"
  using binary64_large [where k = 54 and m = "5000000150000001" and x = "20000000600000004"]
  by simp

lemma rounded_integer_19: "binary64 (20000001000000012) = Fin (20000001000000012)"
  using binary64_large [where k = 54 and m = "5000000250000003" and x = "20000001000000012"]
  by simp

lemma rounded_integer_20: "binary64 (20000001000000016) = Fin (20000001000000016)"
  using binary64_large [where k = 54 and m = "5000000250000004" and x = "20000001000000016"]
  by simp

lemma rounded_integer_21: "binary64 (20000001200000016) = Fin (20000001200000016)"
  using binary64_large [where k = 54 and m = "5000000300000004" and x = "20000001200000016"]
  by simp

lemma rounded_integer_22: "binary64 (20000001200000022) = Fin (20000001200000024)"
  using binary64_large_tie [where k = 54 and f = "5000000300000005" and x = "20000001200000022"]
  by simp

lemma rounded_integer_23: "binary64 (20000001400000018) = Fin (20000001400000016)"
  using binary64_large_tie [where k = 54 and f = "5000000350000004" and x = "20000001400000018"]
  by simp

lemma rounded_integer_24: "binary64 (20000001400000024) = Fin (20000001400000024)"
  using binary64_large [where k = 54 and m = "5000000350000006" and x = "20000001400000024"]
  by simp

lemma rounded_integer_25: "binary64 (20000001400000028) = Fin (20000001400000028)"
  using binary64_large [where k = 54 and m = "5000000350000007" and x = "20000001400000028"]
  by simp

lemma rounded_integer_26: "binary64 (20000001500000024) = Fin (20000001500000024)"
  using binary64_large [where k = 54 and m = "5000000375000006" and x = "20000001500000024"]
  by simp

lemma rounded_integer_27: "binary64 (20000001500000028) = Fin (20000001500000028)"
  using binary64_large [where k = 54 and m = "5000000375000007" and x = "20000001500000028"]
  by simp

lemma rounded_integer_28: "binary64 (20000001800000040) = Fin (20000001800000040)"
  using binary64_large [where k = 54 and m = "5000000450000010" and x = "20000001800000040"]
  by simp

lemma rounded_integer_29: "binary64 (20000001800000044) = Fin (20000001800000044)"
  using binary64_large [where k = 54 and m = "5000000450000011" and x = "20000001800000044"]
  by simp

lemma rounded_integer_30: "binary64 (20000002000000048) = Fin (20000002000000048)"
  using binary64_large [where k = 54 and m = "5000000500000012" and x = "20000002000000048"]
  by simp

lemma rounded_integer_31: "binary64 (20000002000000052) = Fin (20000002000000052)"
  using binary64_large [where k = 54 and m = "5000000500000013" and x = "20000002000000052"]
  by simp

lemma rounded_integer_32: "binary64 (30000000600000000) = Fin (30000000600000000)"
  using binary64_large [where k = 54 and m = "7500000150000000" and x = "30000000600000000"]
  by simp

lemma rounded_integer_33: "binary64 (90000001800000016 / 3) = Fin (30000000600000004)"
  using binary64_large [where k = 54 and m = "7500000150000001" and x = "90000001800000016 / 3"]
  by simp

lemma rounded_integer_34: "binary64 (- 40000001200000009) = Fin (- 40000001200000008)"
  using binary64_large [where k = 55 and m = "- 5000000150000001" and x = "- 40000001200000009"]
  by simp

lemma rounded_integer_35: "binary64 (40000001200000009) = Fin (40000001200000008)"
  using binary64_large [where k = 55 and m = "5000000150000001" and x = "40000001200000009"]
  by simp

lemma rounded_integer_36: "binary64 (40000002000000025) = Fin (40000002000000024)"
  using binary64_large [where k = 55 and m = "5000000250000003" and x = "40000002000000025"]
  by simp

lemma rounded_integer_37: "binary64 (40000002400000035) = Fin (40000002400000032)"
  using binary64_large [where k = 55 and m = "5000000300000004" and x = "40000002400000035"]
  by simp

lemma rounded_integer_38: "binary64 (40000002800000045) = Fin (40000002800000048)"
  using binary64_large [where k = 55 and m = "5000000350000006" and x = "40000002800000045"]
  by simp

lemma rounded_integer_39: "binary64 (40000002800000049) = Fin (40000002800000048)"
  using binary64_large [where k = 55 and m = "5000000350000006" and x = "40000002800000049"]
  by simp

lemma rounded_integer_40: "binary64 (40000003000000050) = Fin (40000003000000048)"
  using binary64_large [where k = 55 and m = "5000000375000006" and x = "40000003000000050"]
  by simp

lemma rounded_integer_41: "binary64 (40000003600000081) = Fin (40000003600000080)"
  using binary64_large [where k = 55 and m = "5000000450000010" and x = "40000003600000081"]
  by simp

lemma rounded_integer_42: "binary64 (40000004000000100) = Fin (40000004000000096)"
  using binary64_large_tie [where k = 55 and f = "5000000500000012" and x = "40000004000000100"]
  by simp

lemma rounded_integer_43: "binary64 (90000001800000009) = Fin (90000001800000016)"
  using binary64_large [where k = 56 and m = "5625000112500001" and x = "90000001800000009"]
  by simp

lemmas rounded_integers = rounded_integer_0 rounded_integer_1 rounded_integer_2 rounded_integer_3 rounded_integer_4 rounded_integer_5 rounded_integer_6 rounded_integer_7 rounded_integer_8 rounded_integer_9 rounded_integer_10 rounded_integer_11 rounded_integer_12 rounded_integer_13 rounded_integer_14 rounded_integer_15 rounded_integer_16 rounded_integer_17 rounded_integer_18 rounded_integer_19 rounded_integer_20 rounded_integer_21 rounded_integer_22 rounded_integer_23 rounded_integer_24 rounded_integer_25 rounded_integer_26 rounded_integer_27 rounded_integer_28 rounded_integer_29 rounded_integer_30 rounded_integer_31 rounded_integer_32 rounded_integer_33 rounded_integer_34 rounded_integer_35 rounded_integer_36 rounded_integer_37 rounded_integer_38 rounded_integer_39 rounded_integer_40 rounded_integer_41 rounded_integer_42 rounded_integer_43

lemma corrcoef_binary64_minus_two: "corrcoef binary64 (map Fin [100000001, 100000004, 100000006, 100000003]) 0 2 2 = Some (Fin (- 2))"
  by (simp add: corrcoef_eval rounded_integers)

lemma corrcoef_binary64_delay_one: "corrcoef binary64 (map Fin [100000001, 100000004, 100000006, 100000003]) 0 1 2 = Some (Fin (1))"
  by (simp add: corrcoef_eval rounded_integers)

lemma corrcoef_binary64_two: "corrcoef binary64 (map Fin [100000001, 100000004, 100000002, 100000005]) 0 2 2 = Some (Fin (2))"
  by (simp add: corrcoef_eval rounded_integers)

lemma corrcoef_binary64_lost_variance: "corrcoef binary64 (map Fin [100000001, 100000002]) 0 0 2 = Some (Fin (- 2))"
  by (simp add: corrcoef_eval rounded_integers)

lemma corrcoef_binary64_lost_variance_negated: "corrcoef binary64 (map Fin [100000001, 100000002, - 100000001, - 100000002]) 0 2 2 = Some (Fin (- 2))"
  by (simp add: corrcoef_eval rounded_integers)

lemma corrcoef_binary64_constant: "corrcoef binary64 (map Fin [100000001, 100000001, 100000001]) 0 0 3 = Some (NaN)"
  by (simp add: corrcoef_eval rounded_integers)

lemma sqrt5_scaled: "sqrt 5 * 2 ^ 51 = sqrt (5 * 2 ^ 102)"
proof -
  have "sqrt ((2 :: real) ^ 102) = 2 ^ 51"
    by (rule real_sqrt_unique) simp_all
  then show ?thesis by (simp only: real_sqrt_mult)
qed

lemma binary64_sqrt5: "binary64 (sqrt 5) = Fin (629397181890197 / 281474976710656)"
proof -
  have "2 < sqrt 5" by (rule real_less_rsqrt) simp
  then have lo: "2 ^ 1 \<le> \<bar>sqrt 5\<bar>" by simp
  have "sqrt 5 < 4" by (rule real_less_lsqrt) simp_all
  then have hi: "\<bar>sqrt 5\<bar> < 2 ^ Suc 1" by simp
  have e: "(52 :: nat) - 1 = 51" by simp
  have "(of_int 5035177455121576 - 1 / 2 :: real) < sqrt (5 * 2 ^ 102)"
    by (rule real_less_rsqrt) (simp add: power_divide)
  then have a: "of_int 5035177455121576 - 1 / 2 < sqrt 5 * 2 ^ (52 - 1)"
    by (simp only: e sqrt5_scaled)
  have "sqrt (5 * 2 ^ 102) < (of_int 5035177455121576 + 1 / 2 :: real)"
    by (rule real_less_lsqrt) (simp_all add: power_divide)
  then have b: "sqrt 5 * 2 ^ (52 - 1) < of_int 5035177455121576 + 1 / 2"
    by (simp only: e sqrt5_scaled)
  show ?thesis
    using binary64_eval [OF lo hi _ a b] by simp
qed

lemma rounded_sqrt5_product: "binary64 (396140812571321726461764698809 / 79228162514264337593543950336) = Fin (5629499534213121 / 1125899906842624)"
  using binary64_eval [where k = 2 and m = "5629499534213121" and x = "396140812571321726461764698809 / 79228162514264337593543950336"]
  by simp

lemma rounded_sqrt5_quotient: "binary64 (5629499534213120 / 5629499534213121) = Fin (4503599627370495 / 4503599627370496)"
  using binary64_small [where j = 1 and m = "9007199254740990" and x = "5629499534213120 / 5629499534213121"]
  by simp

lemma sqrt_16: "sqrt 16 = 4"
  by (rule real_sqrt_unique) simp_all

lemma rounded_dyadic_0: "binary64 (- (3 / 4)) = Fin (- (3 / 4))"
  using binary64_small [where j = 1 and m = "- 6755399441055744" and x = "- (3 / 4)"]
  by simp

lemma rounded_dyadic_1: "binary64 (1 / 256) = Fin (1 / 256)"
  using binary64_small [where j = 8 and m = "4503599627370496" and x = "1 / 256"]
  by simp

lemma rounded_dyadic_2: "binary64 (1 / 4) = Fin (1 / 4)"
  using binary64_small [where j = 2 and m = "4503599627370496" and x = "1 / 4"]
  by simp

lemmas rounded_dyadics = rounded_dyadic_0 rounded_dyadic_1 rounded_dyadic_2 sqrt_16

lemma witness_cell_0_1: "corrcoef binary64 [Fin (- 2), Fin (- 2), Fin 0, Fin 2, Fin 2, Fin (- 2), Fin (- 2), Fin 0] 0 1 5 = Some (Fin (1 / 4))"
  by (simp add: corrcoef_eval rounded_dyadics)

lemma witness_cell_1_2: "corrcoef binary64 [Fin (- 2), Fin (- 2), Fin 0, Fin 2, Fin 2, Fin (- 2), Fin (- 2), Fin 0] 1 2 5 = Some (Fin (1 / 4))"
  by (simp add: corrcoef_eval rounded_dyadics)

lemma witness_cell_0_2: "corrcoef binary64 [Fin (- 2), Fin (- 2), Fin 0, Fin 2, Fin 2, Fin (- 2), Fin (- 2), Fin 0] 0 2 5 = Some (Fin (- (3 / 4)))"
  by (simp add: corrcoef_eval rounded_dyadics)

lemma witness_cell_1_3: "corrcoef binary64 [Fin (- 2), Fin (- 2), Fin 0, Fin 2, Fin 2, Fin (- 2), Fin (- 2), Fin 0] 1 3 5 = Some (Fin (- (3 / 4)))"
  by (simp add: corrcoef_eval rounded_dyadics)

lemmas witness_cells = witness_cell_0_1 witness_cell_1_2 witness_cell_0_2 witness_cell_1_3

lemma correlogram_delay_binary64_cells: "correlogram_delay binary64 (dpow binary64) [Fin (- 2), Fin (- 2), Fin 0, Fin 2, Fin 2, Fin (- 2), Fin (- 2), Fin 0] [1, 2] 5 [2, 2] [Fin 7, Fin 7, Fin 7, Fin 7, Fin 7] = Some (1, [Fin (1 / 256), Fin (1 / 256), Fin 0, Fin 0, Fin 7])"
  by (simp add: builder_eval rd_def witness_cells rounded_dyadics power_divide)

lemma correlogram_binary64_cells: "correlogram binary64 (dpow binary64) [Fin (- 2), Fin (- 2), Fin 0, Fin 2, Fin 2, Fin (- 2), Fin (- 2), Fin 0] 5 [3, 2] [Fin 7, Fin 7, Fin 7, Fin 7, Fin 7] = Some (1, [Fin (1 / 256), Fin (1 / 256), Fin 0, Fin 0, Fin 7])"
  by (simp add: builder_eval rd_def witness_cells rounded_dyadics power_divide)

lemma corrcoef_binary64_minus_two_cell: "corrcoef binary64 [Fin 100000001, Fin 100000004, Fin 100000006, Fin 100000003] 0 2 2 = Some (Fin (- 2))"
  using corrcoef_binary64_minus_two by simp

lemma corrcoef_binary64_delay_one_cell: "corrcoef binary64 [Fin 100000001, Fin 100000004, Fin 100000006, Fin 100000003] 0 1 2 = Some (Fin 1)"
  using corrcoef_binary64_delay_one by simp

lemma corrcoef_binary64_two_cell: "corrcoef binary64 [Fin 100000001, Fin 100000004, Fin 100000002, Fin 100000005] 0 2 2 = Some (Fin 2)"
  using corrcoef_binary64_two by simp

lemma correlogram_delay_binary64_abort: "correlogram_delay binary64 pw [Fin 100000001, Fin 100000004, Fin 100000006, Fin 100000003] [2] 2 [1, 1] [Fin 7] = Some (0, [Fin 7])"
  by (simp add: builder_eval rd_def corrcoef_binary64_minus_two_cell)

lemma correlogram_binary64_abort: "correlogram binary64 pw [Fin 100000001, Fin 100000004, Fin 100000006, Fin 100000003] 2 [3, 1] [Fin 7, Fin 7] = Some (0, [pw (Fin 1) 4, Fin 7])"
  by (simp add: builder_eval rd_def corrcoef_binary64_minus_two_cell corrcoef_binary64_delay_one_cell)

lemma correlogram_delay_binary64_sixteen: "correlogram_delay binary64 (dpow binary64) [Fin 100000001, Fin 100000004, Fin 100000002, Fin 100000005] [2] 2 [1, 1] [Fin 0] = Some (1, [Fin 16])"
  by (simp add: builder_eval rd_def corrcoef_binary64_two_cell)

lemma correlogram_delay_exact_cells:
  assumes ok: "delay_call_ok (map Fin xs) delays wlen D T cgram" and w: "0 < wlen"
    and reg: "\<forall>i<unat D. \<forall>t<unat T. pearson_p_std xs t (t + unat (delays ! i)) (unat wlen) \<noteq> 0"
  shows "\<exists>cgram'. correlogram_delay exact (dpow exact) (map Fin xs) delays wlen [D, T] cgram = Some (1, cgram')
           \<and> length cgram' = length cgram
           \<and> (\<forall>i<unat D. \<forall>t<unat T.
                 cgram' ! (i * unat T + t) = (if 0 < (pearson_cov xs t (t + unat (delays ! i)) (unat wlen) / pearson_p_std xs t (t + unat (delays ! i)) (unat wlen)) then Fin ((pearson_cov xs t (t + unat (delays ! i)) (unat wlen) / pearson_p_std xs t (t + unat (delays ! i)) (unat wlen)) ^ 4) else Fin 0))"
proof -
  have len: "length xs < 2 ^ 64"
    using ok by (simp add: delay_call_ok_def)
  have inb: "t + unat (delays ! i) + unat wlen \<le> length xs" if "i < unat D" and "t < unat T" for i t
    using ok that by (simp add: delay_call_ok_def)
  have free: "\<forall>i<unat D. \<forall>t<unat T.
      corrcoef exact (map Fin xs) (of_nat t) (of_nat t + delays ! i) wlen \<noteq> Some (Fin (- 2))"
    using cell_exact_regular(2) [OF inb len w] reg by blast
  obtain cgram' where res: "correlogram_delay exact (dpow exact) (map Fin xs) delays wlen [D, T] cgram = Some (1, cgram')"
    and l: "length cgram' = length cgram"
    and cells: "\<forall>i<unat D. \<forall>t<unat T. \<exists>r.
        corrcoef exact (map Fin xs) (of_nat t) (of_nat t + delays ! i) wlen = Some r
        \<and> cgram' ! (i * unat T + t) = (if dgt r (Fin 0) then dpow exact r 4 else Fin 0)"
    using correlogram_delay_success [OF ok free, of "dpow exact"] by blast
  have "cgram' ! (i * unat T + t) = (if 0 < (pearson_cov xs t (t + unat (delays ! i)) (unat wlen) / pearson_p_std xs t (t + unat (delays ! i)) (unat wlen)) then Fin ((pearson_cov xs t (t + unat (delays ! i)) (unat wlen) / pearson_p_std xs t (t + unat (delays ! i)) (unat wlen)) ^ 4) else Fin 0)"
    if i: "i < unat D" and t: "t < unat T" for i t
  proof -
    have "pearson_p_std xs t (t + unat (delays ! i)) (unat wlen) \<noteq> 0"
      using reg i t by blast
    then have "corrcoef exact (map Fin xs) (of_nat t) (of_nat t + delays ! i) wlen = Some (Fin (pearson_cov xs t (t + unat (delays ! i)) (unat wlen) / pearson_p_std xs t (t + unat (delays ! i)) (unat wlen)))"
      by (rule cell_exact_regular(1) [OF inb [OF i t] len w])
    moreover obtain r where "corrcoef exact (map Fin xs) (of_nat t) (of_nat t + delays ! i) wlen = Some r"
      and "cgram' ! (i * unat T + t) = (if dgt r (Fin 0) then dpow exact r 4 else Fin 0)"
      using cells i t by blast
    ultimately show ?thesis by simp
  qed
  with res l show ?thesis by blast
qed

lemma correlogram_exact_cells:
  assumes ok: "range_call_ok (map Fin xs) wlen D T cgram" and w: "0 < wlen"
    and reg: "\<forall>d t. 1 \<le> d \<and> d < unat D \<and> t < unat T \<longrightarrow> pearson_p_std xs t (t + d) (unat wlen) \<noteq> 0"
  shows "\<exists>cgram'. correlogram exact (dpow exact) (map Fin xs) wlen [D, T] cgram = Some (1, cgram')
           \<and> length cgram' = length cgram
           \<and> (\<forall>d t. 1 \<le> d \<and> d < unat D \<and> t < unat T \<longrightarrow>
                 cgram' ! ((d - 1) * unat T + t) = (if 0 < (pearson_cov xs t (t + d) (unat wlen) / pearson_p_std xs t (t + d) (unat wlen)) then Fin ((pearson_cov xs t (t + d) (unat wlen) / pearson_p_std xs t (t + d) (unat wlen)) ^ 4) else Fin 0))
           \<and> (\<forall>k<length cgram. (unat D - 1) * unat T \<le> k \<longrightarrow> cgram' ! k = cgram ! k)"
proof -
  have len: "length xs < 2 ^ 64"
    using ok by (simp add: range_call_ok_def)
  have ud: "unat (of_nat d :: size_t) = d" if "d < unat D" for d
  proof -
    have "unat D < 2 ^ 64" using unsigned_less [of D, where ?'a = nat] by simp
    with that show ?thesis by (simp add: unat_of_nat)
  qed
  have inb: "t + unat (of_nat d :: size_t) + unat wlen \<le> length xs"
    if "1 \<le> d" and "d < unat D" and "t < unat T" for d t
    using ok that by (simp add: range_call_ok_def ud)
  have reg': "pearson_p_std xs t (t + unat (of_nat d :: size_t)) (unat wlen) \<noteq> 0"
    if "1 \<le> d" and "d < unat D" and "t < unat T" for d t
    using reg that by (simp add: ud)
  have free: "\<forall>d t. 1 \<le> d \<and> d < unat D \<and> t < unat T \<longrightarrow>
      corrcoef exact (map Fin xs) (of_nat t) (of_nat t + of_nat d) wlen \<noteq> Some (Fin (- 2))"
    using cell_exact_regular(2) [OF inb len w reg'] by blast
  obtain cgram' where res: "correlogram exact (dpow exact) (map Fin xs) wlen [D, T] cgram = Some (1, cgram')"
    and l: "length cgram' = length cgram"
    and cells: "\<forall>d t. 1 \<le> d \<and> d < unat D \<and> t < unat T \<longrightarrow> (\<exists>r.
        corrcoef exact (map Fin xs) (of_nat t) (of_nat t + of_nat d) wlen = Some r
        \<and> cgram' ! ((d - 1) * unat T + t) = (if dgt r (Fin 0) then dpow exact r 4 else Fin 0))"
    and frame: "\<forall>k<length cgram. (unat D - 1) * unat T \<le> k \<longrightarrow> cgram' ! k = cgram ! k"
    using correlogram_success [OF ok free, of "dpow exact"] by blast
  have "cgram' ! ((d - 1) * unat T + t) = (if 0 < (pearson_cov xs t (t + d) (unat wlen) / pearson_p_std xs t (t + d) (unat wlen)) then Fin ((pearson_cov xs t (t + d) (unat wlen) / pearson_p_std xs t (t + d) (unat wlen)) ^ 4) else Fin 0)"
    if d: "1 \<le> d" "d < unat D" and t: "t < unat T" for d t
  proof -
    have "corrcoef exact (map Fin xs) (of_nat t) (of_nat t + of_nat d) wlen
        = Some (Fin (pearson_cov xs t (t + unat (of_nat d :: size_t)) (unat wlen)
                     / pearson_p_std xs t (t + unat (of_nat d :: size_t)) (unat wlen)))"
      by (rule cell_exact_regular(1) [OF inb [OF d t] len w reg' [OF d t]])
    then have "corrcoef exact (map Fin xs) (of_nat t) (of_nat t + of_nat d) wlen = Some (Fin (pearson_cov xs t (t + d) (unat wlen) / pearson_p_std xs t (t + d) (unat wlen)))"
      by (simp only: ud [OF d(2)])
    moreover obtain r where "corrcoef exact (map Fin xs) (of_nat t) (of_nat t + of_nat d) wlen = Some r"
      and "cgram' ! ((d - 1) * unat T + t) = (if dgt r (Fin 0) then dpow exact r 4 else Fin 0)"
      using cells d t by blast
    ultimately show ?thesis by simp
  qed
  with res l frame show ?thesis by blast
qed

lemma witness_signal_cells:
  "corrcoef binary64 (map Fin [- 2, - 2, 0, 2, 2, - 2, - 2, 0]) 0 1 5 = Some (Fin (1 / 4))"
  "corrcoef binary64 (map Fin [- 2, - 2, 0, 2, 2, - 2, - 2, 0]) 1 2 5 = Some (Fin (1 / 4))"
  "corrcoef binary64 (map Fin [- 2, - 2, 0, 2, 2, - 2, - 2, 0]) 0 2 5 = Some (Fin (- (3 / 4)))"
  "corrcoef binary64 (map Fin [- 2, - 2, 0, 2, 2, - 2, - 2, 0]) 1 3 5 = Some (Fin (- (3 / 4)))"
  using witness_cells by simp_all

lemma witness_signal_exact:
  "pearson_cov [- 2, - 2, 0, 2, 2, - 2, - 2, 0] 0 1 5 = 4" "pearson_p_std [- 2, - 2, 0, 2, 2, - 2, - 2, 0] 0 1 5 = 16"
  "pearson_cov [- 2, - 2, 0, 2, 2, - 2, - 2, 0] 1 2 5 = 4" "pearson_p_std [- 2, - 2, 0, 2, 2, - 2, - 2, 0] 1 2 5 = 16"
  "pearson_cov [- 2, - 2, 0, 2, 2, - 2, - 2, 0] 0 2 5 = - 12" "pearson_p_std [- 2, - 2, 0, 2, 2, - 2, - 2, 0] 0 2 5 = 16"
  "pearson_cov [- 2, - 2, 0, 2, 2, - 2, - 2, 0] 1 3 5 = - 12" "pearson_p_std [- 2, - 2, 0, 2, 2, - 2, - 2, 0] 1 3 5 = 16"
  by (simp_all add: pearson_eval sqrt_16)

section \<open>The claims about \<open>corrcoef\<close>\<close>

text \<open>
  C1. For every rounding of the arithmetic, every buffer, offsets \<open>off_x\<close>, \<open>off_y\<close> and
  window length \<open>n\<close> with both windows inside the buffer: the loop of \<open>corrcoef\<close> leaves in
  its accumulators the five sums of the paired windows, each accumulated from left to
  right with every addition and product rounded, and \<open>corrcoef\<close> returns \<open>cov / p_std\<close>,
  evaluated with the same rounding, unless \<open>p_std\<close> compares equal to 0; then it returns
  the sentinel \<open>-2\<close>. In exact arithmetic, for finite samples and \<open>n > 0\<close>, the value
  returned is the quotient of the real numbers \<open>cov\<close> and \<open>p_std\<close> of the specification.
\<close>

theorem corrcoef_pearson:
  assumes "unat off_x + unat n \<le> length data" and "unat off_y + unat n \<le> length data"
    and "length data < 2 ^ 64"
  shows "corrcoef_loop rnd data off_x off_y (off_x + n) sums_zero
           = Some \<lparr>s_x = fl_sum rnd (window data (unat off_x) (unat n)), s_y = fl_sum rnd (window data (unat off_y) (unat n)), s_xy = fl_dot rnd (window data (unat off_x) (unat n)) (window data (unat off_y) (unat n)),
                   s_sq_x = fl_dot rnd (window data (unat off_x) (unat n)) (window data (unat off_x) (unat n)), s_sq_y = fl_dot rnd (window data (unat off_y) (unat n)) (window data (unat off_y) (unat n))\<rparr>
       \<and> corrcoef rnd data off_x off_y n
           = Some (if deq (fl_p_std rnd (window data (unat off_x) (unat n)) (window data (unat off_y) (unat n)) n) (Fin 0) then Fin (- 2)
                   else ddiv rnd (fl_cov rnd (window data (unat off_x) (unat n)) (window data (unat off_y) (unat n)) n) (fl_p_std rnd (window data (unat off_x) (unat n)) (window data (unat off_y) (unat n)) n))
       \<and> (\<forall>xs. data = map Fin xs \<and> 0 < n \<longrightarrow>
             corrcoef exact data off_x off_y n
               = Some (if pearson_p_std xs (unat off_x) (unat off_y) (unat n) = 0 then Fin (- 2)
                       else Fin (pearson_cov xs (unat off_x) (unat off_y) (unat n)
                                 / pearson_p_std xs (unat off_x) (unat off_y) (unat n))))"
proof (intro conjI allI impI)
  show "corrcoef_loop rnd data off_x off_y (off_x + n) sums_zero
           = Some \<lparr>s_x = fl_sum rnd (window data (unat off_x) (unat n)), s_y = fl_sum rnd (window data (unat off_y) (unat n)), s_xy = fl_dot rnd (window data (unat off_x) (unat n)) (window data (unat off_y) (unat n)),
                   s_sq_x = fl_dot rnd (window data (unat off_x) (unat n)) (window data (unat off_x) (unat n)), s_sq_y = fl_dot rnd (window data (unat off_y) (unat n)) (window data (unat off_y) (unat n))\<rparr>"
    by (rule corrcoef_loop_sums [OF assms])
  show "corrcoef rnd data off_x off_y n
           = Some (if deq (fl_p_std rnd (window data (unat off_x) (unat n)) (window data (unat off_y) (unat n)) n) (Fin 0) then Fin (- 2)
                   else ddiv rnd (fl_cov rnd (window data (unat off_x) (unat n)) (window data (unat off_y) (unat n)) n) (fl_p_std rnd (window data (unat off_x) (unat n)) (window data (unat off_y) (unat n)) n))"
    by (rule corrcoef_formula [OF assms])
next
  fix xs assume "data = map Fin xs \<and> 0 < n"
  then have d: "data = map Fin xs" and n: "0 < n" by simp_all
  have "corrcoef exact (map Fin xs) off_x off_y n
      = Some (if pearson_p_std xs (unat off_x) (unat off_y) (unat n) = 0 then Fin (- 2)
              else Fin (pearson_cov xs (unat off_x) (unat off_y) (unat n)
                        / pearson_p_std xs (unat off_x) (unat off_y) (unat n)))"
    using assms n by (intro corrcoef_Fin) (simp_all add: d)
  then show "corrcoef exact data off_x off_y n
               = Some (if pearson_p_std xs (unat off_x) (unat off_y) (unat n) = 0 then Fin (- 2)
                       else Fin (pearson_cov xs (unat off_x) (unat off_y) (unat n)
                                 / pearson_p_std xs (unat off_x) (unat off_y) (unat n)))"
    by (simp only: d)
qed

theorem corrcoef_pearson_witness:
  "unat (0 :: size_t) + unat (4 :: size_t) \<le> length (map Fin [1, 2, 3, 4, 1, 2, 3, 4])
   \<and> unat (4 :: size_t) + unat (4 :: size_t) \<le> length (map Fin [1, 2, 3, 4, 1, 2, 3, 4])
   \<and> length (map Fin [1, 2, 3, 4, 1, 2, 3, 4]) < 2 ^ 64
   \<and> corrcoef_loop binary64 (map Fin [1, 2, 3, 4, 1, 2, 3, 4]) 0 4 (0 + 4) sums_zero
        = Some \<lparr>s_x = Fin 10, s_y = Fin 10, s_xy = Fin 30, s_sq_x = Fin 30, s_sq_y = Fin 30\<rparr>
   \<and> fl_cov binary64 (window (map Fin [1, 2, 3, 4, 1, 2, 3, 4]) 0 4) (window (map Fin [1, 2, 3, 4, 1, 2, 3, 4]) 4 4) 4 = Fin 5
   \<and> fl_p_std binary64 (window (map Fin [1, 2, 3, 4, 1, 2, 3, 4]) 0 4) (window (map Fin [1, 2, 3, 4, 1, 2, 3, 4]) 4 4) 4
        = Fin (5629499534213121 / 1125899906842624)
   \<and> corrcoef binary64 (map Fin [1, 2, 3, 4, 1, 2, 3, 4]) 0 4 4 = Some (Fin (4503599627370495 / 4503599627370496))
   \<and> (0 :: size_t) < 4
   \<and> pearson_cov [1, 2, 3, 4, 1, 2, 3, 4] 0 4 4 = 5 \<and> pearson_p_std [1, 2, 3, 4, 1, 2, 3, 4] 0 4 4 = 5
   \<and> corrcoef exact (map Fin [1, 2, 3, 4, 1, 2, 3, 4]) 0 4 4 = Some (Fin 1)"
proof -
  note inst = corrcoef_pearson [of 0 4 "map Fin [1, 2, 3, 4, 1, 2, 3, 4]" 4]
  have h: "unat (0 :: size_t) + unat (4 :: size_t) \<le> length (map Fin [1, 2, 3, 4, 1, 2, 3, 4])"
    "unat (4 :: size_t) + unat (4 :: size_t) \<le> length (map Fin [1, 2, 3, 4, 1, 2, 3, 4])"
    "length (map Fin [1, 2, 3, 4, 1, 2, 3, 4]) < 2 ^ 64"
    by simp_all
  have c: "fl_cov binary64 (window (map Fin [1, 2, 3, 4, 1, 2, 3, 4]) 0 4) (window (map Fin [1, 2, 3, 4, 1, 2, 3, 4]) 4 4) 4 = Fin 5"
    by (simp add: fl_eval)
  have p: "fl_p_std binary64 (window (map Fin [1, 2, 3, 4, 1, 2, 3, 4]) 0 4) (window (map Fin [1, 2, 3, 4, 1, 2, 3, 4]) 4 4) 4
        = Fin (5629499534213121 / 1125899906842624)"
    by (simp add: fl_eval binary64_sqrt5 rounded_sqrt5_product)
  have q: "ddiv binary64 (Fin 5) (Fin (5629499534213121 / 1125899906842624))
        = Fin (4503599627370495 / 4503599627370496)"
    by (simp add: rounded_sqrt5_quotient)
  have u: "unat (0 :: size_t) = 0" "unat (4 :: size_t) = 4" by simp_all
  have l: "corrcoef_loop binary64 (map Fin [1, 2, 3, 4, 1, 2, 3, 4]) 0 4 (0 + 4) sums_zero
        = Some \<lparr>s_x = Fin 10, s_y = Fin 10, s_xy = Fin 30, s_sq_x = Fin 30, s_sq_y = Fin 30\<rparr>"
    using inst [OF h, of binary64, THEN conjunct1] by (simp add: fl_eval)
  have r: "corrcoef binary64 (map Fin [1, 2, 3, 4, 1, 2, 3, 4]) 0 4 4 = Some (Fin (4503599627370495 / 4503599627370496))"
    using inst [OF h, of binary64, THEN conjunct2, THEN conjunct1]
    by (simp only: u c p q) simp
  have rc: "pearson_cov [1, 2, 3, 4, 1, 2, 3, 4] 0 4 4 = 5" and rp: "pearson_p_std [1, 2, 3, 4, 1, 2, 3, 4] 0 4 4 = 5"
    by (simp_all add: pearson_eval)
  have e: "corrcoef exact (map Fin [1, 2, 3, 4, 1, 2, 3, 4]) 0 4 4 = Some (Fin 1)"
    using inst [OF h, of exact, THEN conjunct2, THEN conjunct2, rule_format, where xs = "[1, 2, 3, 4, 1, 2, 3, 4]"]
    by (simp add: rc rp)
  show ?thesis using h l c p r rc rp e by simp
qed

text \<open>
  C1 as stated promises \<open>cov / p_std\<close> for every window with \<open>n > 0\<close>. For the constant
  window \<open>[5, 5]\<close>, where \<open>cov\<close> and \<open>p_std\<close> are both zero, the code returns \<open>-2\<close>, in
  binary64 as in exact arithmetic, while the quotient \<open>0 / 0\<close> is NaN.
\<close>

theorem corrcoef_quotient_counterexample:
  "corrcoef binary64 (map Fin [5, 5]) 0 0 2 = Some (Fin (- 2))
   \<and> corrcoef exact (map Fin [5, 5]) 0 0 2 = Some (Fin (- 2))
   \<and> pearson_cov [5, 5] 0 0 2 = 0
   \<and> pearson_p_std [5, 5] 0 0 2 = 0
   \<and> ddiv binary64 (Fin 0) (Fin 0) = NaN
   \<and> ddiv exact (Fin 0) (Fin 0) = NaN"
  by (simp add: corrcoef_eval pearson_eval)

text \<open>
  C3. For every rounding, every buffer and windows inside the buffer: \<open>corrcoef\<close> returns
  the sentinel \<open>-2\<close> when the \<open>p_std\<close> it computed compares equal to 0, and returns the
  computed quotient \<open>cov / p_std\<close> otherwise; so \<open>-2\<close> is returned exactly when the computed
  \<open>p_std\<close> is 0 or the computed quotient is itself \<open>-2\<close>. In exact arithmetic, for finite
  samples and \<open>n > 0\<close>, \<open>-2\<close> is returned if and only if \<open>p_std = 0\<close>, and in every other case
  the quotient returned lies in \<open>[-1, 1]\<close>.
\<close>

theorem corrcoef_sentinel:
  assumes "unat off_x + unat n \<le> length data" and "unat off_y + unat n \<le> length data"
    and "length data < 2 ^ 64"
  shows "(deq (fl_p_std rnd (window data (unat off_x) (unat n)) (window data (unat off_y) (unat n)) n) (Fin 0) \<longrightarrow> corrcoef rnd data off_x off_y n = Some (Fin (- 2)))
       \<and> (\<not> deq (fl_p_std rnd (window data (unat off_x) (unat n)) (window data (unat off_y) (unat n)) n) (Fin 0) \<longrightarrow>
            corrcoef rnd data off_x off_y n = Some (ddiv rnd (fl_cov rnd (window data (unat off_x) (unat n)) (window data (unat off_y) (unat n)) n) (fl_p_std rnd (window data (unat off_x) (unat n)) (window data (unat off_y) (unat n)) n)))
       \<and> (corrcoef rnd data off_x off_y n = Some (Fin (- 2)) \<longleftrightarrow>
            deq (fl_p_std rnd (window data (unat off_x) (unat n)) (window data (unat off_y) (unat n)) n) (Fin 0)
            \<or> ddiv rnd (fl_cov rnd (window data (unat off_x) (unat n)) (window data (unat off_y) (unat n)) n) (fl_p_std rnd (window data (unat off_x) (unat n)) (window data (unat off_y) (unat n)) n) = Fin (- 2))
       \<and> (\<forall>xs. data = map Fin xs \<and> 0 < n \<longrightarrow>
            (corrcoef exact data off_x off_y n = Some (Fin (- 2))
               \<longleftrightarrow> pearson_p_std xs (unat off_x) (unat off_y) (unat n) = 0)
            \<and> (pearson_p_std xs (unat off_x) (unat off_y) (unat n) \<noteq> 0 \<longrightarrow>
                 corrcoef exact data off_x off_y n
                   = Some (Fin (pearson_cov xs (unat off_x) (unat off_y) (unat n)
                                / pearson_p_std xs (unat off_x) (unat off_y) (unat n)))
                 \<and> - 1 \<le> pearson_cov xs (unat off_x) (unat off_y) (unat n)
                            / pearson_p_std xs (unat off_x) (unat off_y) (unat n)
                 \<and> pearson_cov xs (unat off_x) (unat off_y) (unat n)
                       / pearson_p_std xs (unat off_x) (unat off_y) (unat n) \<le> 1))"
proof -
  note f = corrcoef_formula [OF assms, of rnd]
  have a: "deq (fl_p_std rnd (window data (unat off_x) (unat n)) (window data (unat off_y) (unat n)) n) (Fin 0) \<longrightarrow> corrcoef rnd data off_x off_y n = Some (Fin (- 2))"
    by (simp add: f)
  have b: "\<not> deq (fl_p_std rnd (window data (unat off_x) (unat n)) (window data (unat off_y) (unat n)) n) (Fin 0) \<longrightarrow>
      corrcoef rnd data off_x off_y n = Some (ddiv rnd (fl_cov rnd (window data (unat off_x) (unat n)) (window data (unat off_y) (unat n)) n) (fl_p_std rnd (window data (unat off_x) (unat n)) (window data (unat off_y) (unat n)) n))"
    by (simp add: f)
  have c: "corrcoef rnd data off_x off_y n = Some (Fin (- 2)) \<longleftrightarrow>
      deq (fl_p_std rnd (window data (unat off_x) (unat n)) (window data (unat off_y) (unat n)) n) (Fin 0)
      \<or> ddiv rnd (fl_cov rnd (window data (unat off_x) (unat n)) (window data (unat off_y) (unat n)) n) (fl_p_std rnd (window data (unat off_x) (unat n)) (window data (unat off_y) (unat n)) n) = Fin (- 2)"
    by (simp add: f)
  have d: "(corrcoef exact data off_x off_y n = Some (Fin (- 2))
               \<longleftrightarrow> pearson_p_std xs (unat off_x) (unat off_y) (unat n) = 0)
            \<and> (pearson_p_std xs (unat off_x) (unat off_y) (unat n) \<noteq> 0 \<longrightarrow>
                 corrcoef exact data off_x off_y n
                   = Some (Fin (pearson_cov xs (unat off_x) (unat off_y) (unat n)
                                / pearson_p_std xs (unat off_x) (unat off_y) (unat n)))
                 \<and> - 1 \<le> pearson_cov xs (unat off_x) (unat off_y) (unat n)
                            / pearson_p_std xs (unat off_x) (unat off_y) (unat n)
                 \<and> pearson_cov xs (unat off_x) (unat off_y) (unat n)
                       / pearson_p_std xs (unat off_x) (unat off_y) (unat n) \<le> 1)"
    if "data = map Fin xs \<and> 0 < n" for xs
  proof -
    from that have d: "data = map Fin xs" and n: "0 < n" by simp_all
    have n0: "0 < unat n" using n by (simp add: unat_gt_0)
    have "corrcoef exact (map Fin xs) off_x off_y n
        = Some (if pearson_p_std xs (unat off_x) (unat off_y) (unat n) = 0 then Fin (- 2)
                else Fin (pearson_cov xs (unat off_x) (unat off_y) (unat n)
                          / pearson_p_std xs (unat off_x) (unat off_y) (unat n)))"
      using assms n by (intro corrcoef_Fin) (simp_all add: d)
    then show ?thesis
      using corrcoef_range [OF n0, of xs "unat off_x" "unat off_y"] by (auto simp: d)
  qed
  show ?thesis using a b c d by blast
qed

theorem corrcoef_sentinel_witness:
  "unat (0 :: size_t) + unat (2 :: size_t) \<le> length (map Fin [100000001, 100000004, 100000006, 100000003])
   \<and> unat (2 :: size_t) + unat (2 :: size_t) \<le> length (map Fin [100000001, 100000004, 100000006, 100000003])
   \<and> length (map Fin [100000001, 100000004, 100000006, 100000003]) < 2 ^ 64
   \<and> fl_p_std binary64 (window (map Fin [100000001, 100000004, 100000006, 100000003]) 0 2) (window (map Fin [100000001, 100000004, 100000006, 100000003]) 2 2) 2 = Fin 4
   \<and> fl_cov binary64 (window (map Fin [100000001, 100000004, 100000006, 100000003]) 0 2) (window (map Fin [100000001, 100000004, 100000006, 100000003]) 2 2) 2 = Fin (- 8)
   \<and> \<not> deq (Fin 4) (Fin 0)
   \<and> corrcoef binary64 (map Fin [100000001, 100000004, 100000006, 100000003]) 0 2 2 = Some (Fin (- 2))
   \<and> fl_p_std binary64 (window (map Fin [5, 5]) 0 2) (window (map Fin [5, 5]) 0 2) 2 = Fin 0
   \<and> corrcoef binary64 (map Fin [5, 5]) 0 0 2 = Some (Fin (- 2))
   \<and> (0 :: size_t) < 3
   \<and> pearson_p_std [1, 2, 3, 1, 3, 2] 0 3 3 \<noteq> 0
   \<and> corrcoef exact (map Fin [1, 2, 3, 1, 3, 2]) 0 3 3 = Some (Fin (1 / 2))"
proof -
  have h: "unat (0 :: size_t) + unat (2 :: size_t) \<le> length (map Fin [100000001, 100000004, 100000006, 100000003])"
    "unat (2 :: size_t) + unat (2 :: size_t) \<le> length (map Fin [100000001, 100000004, 100000006, 100000003])"
    "length (map Fin [100000001, 100000004, 100000006, 100000003]) < 2 ^ 64"
    by simp_all
  have u: "unat (0 :: size_t) = 0" "unat (2 :: size_t) = 2" "unat (3 :: size_t) = 3" by simp_all
  have p: "fl_p_std binary64 (window (map Fin [100000001, 100000004, 100000006, 100000003]) 0 2) (window (map Fin [100000001, 100000004, 100000006, 100000003]) 2 2) 2 = Fin 4"
    by (simp add: fl_eval rounded_integers)
  have c: "fl_cov binary64 (window (map Fin [100000001, 100000004, 100000006, 100000003]) 0 2) (window (map Fin [100000001, 100000004, 100000006, 100000003]) 2 2) 2 = Fin (- 8)"
    by (simp add: fl_eval rounded_integers)
  have nz: "\<not> deq (Fin 4) (Fin 0)" by simp
  have r: "corrcoef binary64 (map Fin [100000001, 100000004, 100000006, 100000003]) 0 2 2 = Some (Fin (- 2))"
    using corrcoef_sentinel [OF h, of binary64, THEN conjunct2, THEN conjunct1]
    by (simp only: u p c) simp
  have p5: "fl_p_std binary64 (window (map Fin [5, 5]) 0 2) (window (map Fin [5, 5]) 0 2) 2 = Fin 0"
    by (simp add: fl_eval)
  have r5: "corrcoef binary64 (map Fin [5, 5]) 0 0 2 = Some (Fin (- 2))"
    using corrcoef_sentinel [of 0 2 "map Fin [5, 5]" 0 binary64, THEN conjunct1]
    by (simp only: u p5) simp
  have pe: "pearson_p_std [1, 2, 3, 1, 3, 2] 0 3 3 \<noteq> 0"
    by (simp add: pearson_eval)
  have e: "corrcoef exact (map Fin [1, 2, 3, 1, 3, 2]) 0 3 3 = Some (Fin (1 / 2))"
    using corrcoef_sentinel [of 0 3 "map Fin [1, 2, 3, 1, 3, 2]" 3 exact,
        THEN conjunct2, THEN conjunct2, THEN conjunct2, rule_format, where xs = "[1, 2, 3, 1, 3, 2]"]
    by (simp add: pearson_eval)
  show ?thesis using h p c nz r p5 r5 pe e by simp
qed

text \<open>
  C3 as stated reads \<open>-2\<close> as the mark of a degenerate window and confines every other
  result to \<open>[-1, 1]\<close>. In binary64 the windows \<open>[100000001, 100000004]\<close> and
  \<open>[100000006, 100000003]\<close> both have the variance term \<open>9/2\<close>; the code computes
  \<open>cov = -8\<close> and \<open>p_std = 4\<close> and returns the quotient \<open>-2\<close>. The constant window
  \<open>[100000001, 100000001, 100000001]\<close> has \<open>p_std = 0\<close>, but its variance term is computed
  as \<open>-4\<close> and the code returns NaN. With \<open>n = 0\<close> the code returns NaN in every
  arithmetic. The windows \<open>[100000001, 100000004]\<close> and \<open>[100000002, 100000005]\<close> give 2.
\<close>

theorem corrcoef_sentinel_counterexample:
  "corrcoef binary64 (map Fin [100000001, 100000004, 100000006, 100000003]) 0 2 2 = Some (Fin (- 2))
   \<and> fl_p_std binary64 (window (map Fin [100000001, 100000004, 100000006, 100000003]) 0 2) (window (map Fin [100000001, 100000004, 100000006, 100000003]) 2 2) 2 = Fin 4
   \<and> pearson_p_std [100000001, 100000004, 100000006, 100000003] 0 2 2 = 9 / 2
   \<and> corrcoef binary64 (map Fin [100000001, 100000001, 100000001]) 0 0 3 = Some NaN
   \<and> fl_variance binary64 (window (map Fin [100000001, 100000001, 100000001]) 0 3) 3 = Fin (- 4)
   \<and> pearson_p_std [100000001, 100000001, 100000001] 0 0 3 = 0
   \<and> corrcoef binary64 (map Fin [1, 2]) 0 1 0 = Some NaN
   \<and> corrcoef exact (map Fin [1, 2]) 0 1 0 = Some NaN
   \<and> corrcoef binary64 (map Fin [100000001, 100000004, 100000002, 100000005]) 0 2 2 = Some (Fin 2)"
proof -
  have "corrcoef binary64 (map Fin [100000001, 100000004, 100000006, 100000003]) 0 2 2 = Some (Fin (- 2))" by (rule corrcoef_binary64_minus_two)
  moreover have "fl_p_std binary64 (window (map Fin [100000001, 100000004, 100000006, 100000003]) 0 2) (window (map Fin [100000001, 100000004, 100000006, 100000003]) 2 2) 2 = Fin 4"
    by (simp add: fl_eval rounded_integers)
  moreover have "pearson_p_std [100000001, 100000004, 100000006, 100000003] 0 2 2 = 9 / 2"
    by (simp add: pearson_eval)
  moreover have "corrcoef binary64 (map Fin [100000001, 100000001, 100000001]) 0 0 3 = Some NaN" by (rule corrcoef_binary64_constant)
  moreover have "fl_variance binary64 (window (map Fin [100000001, 100000001, 100000001]) 0 3) 3 = Fin (- 4)"
    by (simp add: fl_eval rounded_integers)
  moreover have "pearson_p_std [100000001, 100000001, 100000001] 0 0 3 = 0"
    by (simp add: pearson_eval)
  moreover have "corrcoef binary64 (map Fin [1, 2]) 0 1 0 = Some NaN"
    and "corrcoef exact (map Fin [1, 2]) 0 1 0 = Some NaN"
    by (simp_all add: corrcoef_eval)
  moreover have "corrcoef binary64 (map Fin [100000001, 100000004, 100000002, 100000005]) 0 2 2 = Some (Fin 2)" by (rule corrcoef_binary64_two)
  ultimately show ?thesis by blast
qed

text \<open>
  C8. Self-correlation. For every rounding, a window inside the buffer correlated with
  itself (\<open>off_x = off_y\<close>) gives \<open>v / (sqrt v * sqrt v)\<close>, every operation rounded, where \<open>v\<close>
  is the variance term \<open>sum of x^2 - (sum of x)^2 / n\<close> as the code computes it, or the
  sentinel \<open>-2\<close> when the product of the two roots compares equal to 0. In binary64 the
  result is within \<open>2^-50\<close> of 1 when the computed \<open>v\<close> lies between \<open>2^-1000\<close> and \<open>2^1000\<close>,
  it is \<open>-2\<close> when the computed \<open>v\<close> is 0, and NaN when the computed \<open>v\<close> is negative. In
  exact arithmetic, for finite samples and \<open>n > 0\<close>, the result is exactly 1 for a window
  of nonzero variance and \<open>-2\<close> for a window of zero variance.
\<close>

theorem corrcoef_self:
  assumes "unat off + unat n \<le> length data" and "length data < 2 ^ 64"
  shows "corrcoef rnd data off off n
           = Some (if deq (dmul rnd (dsqrt rnd (fl_variance rnd (window data (unat off) (unat n)) n)) (dsqrt rnd (fl_variance rnd (window data (unat off) (unat n)) n))) (Fin 0) then Fin (- 2) else ddiv rnd (fl_variance rnd (window data (unat off) (unat n)) n) (dmul rnd (dsqrt rnd (fl_variance rnd (window data (unat off) (unat n)) n)) (dsqrt rnd (fl_variance rnd (window data (unat off) (unat n)) n))))
       \<and> (\<forall>a. fl_variance binary64 (window data (unat off) (unat n)) n = Fin a \<and> 1 / 2 ^ 1000 \<le> a \<and> a \<le> 2 ^ 1000 \<longrightarrow>
            (\<exists>q. corrcoef binary64 data off off n = Some (Fin q) \<and> \<bar>q - 1\<bar> \<le> 1 / 2 ^ 50))
       \<and> (fl_variance binary64 (window data (unat off) (unat n)) n = Fin 0 \<longrightarrow> corrcoef binary64 data off off n = Some (Fin (- 2)))
       \<and> (\<forall>a. fl_variance rnd (window data (unat off) (unat n)) n = Fin a \<and> a < 0 \<longrightarrow> corrcoef rnd data off off n = Some NaN)
       \<and> (\<forall>xs. data = map Fin xs \<and> 0 < n \<longrightarrow>
            corrcoef exact data off off n
              = Some (if pearson_p_std xs (unat off) (unat off) (unat n) = 0 then Fin (- 2) else Fin 1))"
proof -
  note f = corrcoef_self_formula [OF assms]
  have a: "corrcoef rnd data off off n
           = Some (if deq (dmul rnd (dsqrt rnd (fl_variance rnd (window data (unat off) (unat n)) n)) (dsqrt rnd (fl_variance rnd (window data (unat off) (unat n)) n))) (Fin 0) then Fin (- 2) else ddiv rnd (fl_variance rnd (window data (unat off) (unat n)) n) (dmul rnd (dsqrt rnd (fl_variance rnd (window data (unat off) (unat n)) n)) (dsqrt rnd (fl_variance rnd (window data (unat off) (unat n)) n))))"
    by (rule f)
  have b: "\<exists>q. corrcoef binary64 data off off n = Some (Fin q) \<and> \<bar>q - 1\<bar> \<le> 1 / 2 ^ 50"
    if "fl_variance binary64 (window data (unat off) (unat n)) n = Fin a \<and> 1 / 2 ^ 1000 \<le> a \<and> a \<le> 2 ^ 1000" for a
  proof -
    from that have v: "fl_variance binary64 (window data (unat off) (unat n)) n = Fin a"
      and lo: "1 / 2 ^ 1000 \<le> a" and hi: "a \<le> 2 ^ 1000" by simp_all
    obtain p q where "dmul binary64 (dsqrt binary64 (Fin a)) (dsqrt binary64 (Fin a)) = Fin p"
      and "0 < p" and "ddiv binary64 (Fin a) (Fin p) = Fin q" and "\<bar>q - 1\<bar> \<le> 1 / 2 ^ 50"
      using binary64_unit_quotient [OF lo hi] by blast
    then show ?thesis by (simp add: f v)
  qed
  have c: "fl_variance binary64 (window data (unat off) (unat n)) n = Fin 0 \<longrightarrow> corrcoef binary64 data off off n = Some (Fin (- 2))"
    by (simp add: f)
  have d: "corrcoef rnd data off off n = Some NaN"
    if "fl_variance rnd (window data (unat off) (unat n)) n = Fin a \<and> a < 0" for a
    using that by (simp add: f)
  have e: "corrcoef exact data off off n
              = Some (if pearson_p_std xs (unat off) (unat off) (unat n) = 0 then Fin (- 2) else Fin 1)"
    if "data = map Fin xs \<and> 0 < n" for xs
  proof -
    from that have d: "data = map Fin xs" and n: "0 < n" by simp_all
    have "corrcoef exact (map Fin xs) off off n
        = Some (if pearson_p_std xs (unat off) (unat off) (unat n) = 0 then Fin (- 2)
                else Fin (pearson_cov xs (unat off) (unat off) (unat n)
                          / pearson_p_std xs (unat off) (unat off) (unat n)))"
      using assms n by (intro corrcoef_Fin) (simp_all add: d)
    then show ?thesis by (simp add: d p_std_self)
  qed
  show ?thesis using a b c d e by blast
qed

theorem corrcoef_self_witness:
  "unat (0 :: size_t) + unat (4 :: size_t) \<le> length (map Fin [2, 0, 0, 0])
   \<and> length (map Fin [2, 0, 0, 0]) < 2 ^ 64
   \<and> fl_variance binary64 (window (map Fin [2, 0, 0, 0]) 0 4) 4 = Fin 3
   \<and> (1 :: real) / 2 ^ 1000 \<le> 3 \<and> (3 :: real) \<le> 2 ^ 1000
   \<and> (\<exists>q. corrcoef binary64 (map Fin [2, 0, 0, 0]) 0 0 4 = Some (Fin q) \<and> \<bar>q - 1\<bar> \<le> 1 / 2 ^ 50)
   \<and> corrcoef binary64 (map Fin [2, 0, 0, 0]) 0 0 4 = Some (Fin (4503599627370497 / 2 ^ 52))
   \<and> fl_variance binary64 (window (map Fin [100000001, 100000002]) 0 2) 2 = Fin 0
   \<and> corrcoef binary64 (map Fin [100000001, 100000002]) 0 0 2 = Some (Fin (- 2))
   \<and> fl_variance binary64 (window (map Fin [100000001, 100000001, 100000001]) 0 3) 3 = Fin (- 4)
   \<and> corrcoef binary64 (map Fin [100000001, 100000001, 100000001]) 0 0 3 = Some NaN
   \<and> (0 :: size_t) < 3
   \<and> pearson_p_std [0, 1, 2, 4] 1 1 3 \<noteq> 0
   \<and> corrcoef exact (map Fin [0, 1, 2, 4]) 1 1 3 = Some (Fin 1)"
proof -
  have h: "unat (0 :: size_t) + unat (4 :: size_t) \<le> length (map Fin [2, 0, 0, 0])"
    "length (map Fin [2, 0, 0, 0]) < 2 ^ 64"
    by simp_all
  have u: "unat (0 :: size_t) = 0" "unat (1 :: size_t) = 1" "unat (2 :: size_t) = 2"
    "unat (3 :: size_t) = 3" "unat (4 :: size_t) = 4"
    by simp_all
  have v: "fl_variance binary64 (window (map Fin [2, 0, 0, 0]) 0 4) 4 = Fin 3"
    by (simp add: fl_eval)
  have b: "(1 :: real) / 2 ^ 1000 \<le> 3" "(3 :: real) \<le> 2 ^ 1000" by simp_all
  have q: "\<exists>q. corrcoef binary64 (map Fin [2, 0, 0, 0]) 0 0 4 = Some (Fin q) \<and> \<bar>q - 1\<bar> \<le> 1 / 2 ^ 50"
    using corrcoef_self [OF h, of binary64, THEN conjunct2, THEN conjunct1, rule_format, of 3] v b
    by (simp only: u)
  have r: "corrcoef binary64 (map Fin [2, 0, 0, 0]) 0 0 4 = Some (Fin (4503599627370497 / 2 ^ 52))"
    using corrcoef_binary64_same by simp
  have vs: "fl_variance binary64 (window (map Fin [100000001, 100000002]) 0 2) 2 = Fin 0"
    by (simp add: fl_eval rounded_integers)
  have rs: "corrcoef binary64 (map Fin [100000001, 100000002]) 0 0 2 = Some (Fin (- 2))"
    using corrcoef_self [of 0 2 "map Fin [100000001, 100000002]" binary64, THEN conjunct2, THEN conjunct2, THEN conjunct1] vs
    by (simp only: u) simp
  have vk: "fl_variance binary64 (window (map Fin [100000001, 100000001, 100000001]) 0 3) 3 = Fin (- 4)"
    by (simp add: fl_eval rounded_integers)
  have rk: "corrcoef binary64 (map Fin [100000001, 100000001, 100000001]) 0 0 3 = Some NaN"
    using corrcoef_self [of 0 3 "map Fin [100000001, 100000001, 100000001]" binary64,
        THEN conjunct2, THEN conjunct2, THEN conjunct2, THEN conjunct1, rule_format, of "- 4"] vk
    by (simp only: u) simp
  have pe: "pearson_p_std [0, 1, 2, 4] 1 1 3 \<noteq> 0"
    by (simp add: pearson_eval)
  have e: "corrcoef exact (map Fin [0, 1, 2, 4]) 1 1 3 = Some (Fin 1)"
    using corrcoef_self [of 1 3 "map Fin [0, 1, 2, 4]" exact,
        THEN conjunct2, THEN conjunct2, THEN conjunct2, THEN conjunct2, rule_format, where xs = "[0, 1, 2, 4]"] pe
    by (simp add: u)
  show ?thesis using h v b q r vs rs vk rk pe e by simp
qed

text \<open>
  C8 as stated gives exactly 1 for every buffer and every \<open>n > 0\<close>. A window of one sample
  has zero variance, and the code returns the sentinel \<open>-2\<close>. In binary64 the window
  \<open>[2, 0, 0, 0]\<close>, of variance 3, correlated with itself gives \<open>1 + 2^-52\<close>, and the window
  \<open>[100000001, 100000002]\<close>, of variance \<open>1/2\<close>, gives \<open>-2\<close>: its variance term is computed
  as 0.
\<close>

theorem corrcoef_self_constant_counterexample:
  "corrcoef binary64 (map Fin [7]) 0 0 1 = Some (Fin (- 2))
   \<and> corrcoef exact (map Fin [7]) 0 0 1 = Some (Fin (- 2))
   \<and> corrcoef binary64 (map Fin [2, 0, 0, 0]) 0 0 4 = Some (Fin (4503599627370497 / 2 ^ 52))
   \<and> (4503599627370497 / 2 ^ 52 :: real) \<noteq> 1
   \<and> corrcoef binary64 (map Fin [100000001, 100000002]) 0 0 2 = Some (Fin (- 2))
   \<and> pearson_p_std [100000001, 100000002] 0 0 2 = 1 / 2"
proof -
  have "corrcoef binary64 (map Fin [7]) 0 0 1 = Some (Fin (- 2))"
    and "corrcoef exact (map Fin [7]) 0 0 1 = Some (Fin (- 2))"
    by (simp_all add: corrcoef_eval)
  moreover have "corrcoef binary64 (map Fin [2, 0, 0, 0]) 0 0 4 = Some (Fin (4503599627370497 / 2 ^ 52))"
    using corrcoef_binary64_same by (simp only: list.map)
  moreover have "(4503599627370497 / 2 ^ 52 :: real) \<noteq> 1" by simp
  moreover have "corrcoef binary64 (map Fin [100000001, 100000002]) 0 0 2 = Some (Fin (- 2))" by (rule corrcoef_binary64_lost_variance)
  moreover have "pearson_p_std [100000001, 100000002] 0 0 2 = 1 / 2"
    by (simp add: pearson_eval)
  ultimately show ?thesis by blast
qed

text \<open>
  C9. Anti-correlation. Let every sample of the second window be the negation of the
  corresponding sample of the first, both windows inside the buffer. For every rounding
  that commutes with negation (exact arithmetic and binary64 do), \<open>corrcoef\<close> gives
  \<open>-(v / (sqrt v * sqrt v))\<close>, every operation rounded, where \<open>v\<close> is the variance term of the
  first window as the code computes it, or the sentinel \<open>-2\<close> when the product of the two
  roots compares equal to 0. In binary64 the result is within \<open>2^-50\<close> of \<open>-1\<close> when the
  computed \<open>v\<close> lies between \<open>2^-1000\<close> and \<open>2^1000\<close>, and it is \<open>-2\<close> when the computed \<open>v\<close> is 0.
  In exact arithmetic, for finite samples, the result is exactly \<open>-1\<close> when the first
  window has nonzero variance.
\<close>

theorem corrcoef_negated:
  assumes "unat off_x + unat n \<le> length data" and "unat off_y + unat n \<le> length data"
    and "length data < 2 ^ 64"
    and "\<forall>k<unat n. data ! (unat off_y + k) = dneg (data ! (unat off_x + k))"
  shows "(odd_rounding rnd \<longrightarrow>
            corrcoef rnd data off_x off_y n
              = Some (if deq (dmul rnd (dsqrt rnd (fl_variance rnd (window data (unat off_x) (unat n)) n)) (dsqrt rnd (fl_variance rnd (window data (unat off_x) (unat n)) n))) (Fin 0) then Fin (- 2) else dneg (ddiv rnd (fl_variance rnd (window data (unat off_x) (unat n)) n) (dmul rnd (dsqrt rnd (fl_variance rnd (window data (unat off_x) (unat n)) n)) (dsqrt rnd (fl_variance rnd (window data (unat off_x) (unat n)) n))))))
       \<and> (\<forall>a. fl_variance binary64 (window data (unat off_x) (unat n)) n = Fin a \<and> 1 / 2 ^ 1000 \<le> a \<and> a \<le> 2 ^ 1000 \<longrightarrow>
            (\<exists>q. corrcoef binary64 data off_x off_y n = Some (Fin q) \<and> \<bar>q + 1\<bar> \<le> 1 / 2 ^ 50))
       \<and> (fl_variance binary64 (window data (unat off_x) (unat n)) n = Fin 0 \<longrightarrow> corrcoef binary64 data off_x off_y n = Some (Fin (- 2)))
       \<and> (\<forall>xs. data = map Fin xs
              \<and> win_dot xs (unat off_x) (unat off_x) (unat n) - mean_square xs (unat off_x) (unat n) \<noteq> 0 \<longrightarrow>
            corrcoef exact data off_x off_y n = Some (Fin (- 1)))"
proof -
  have a: "corrcoef rnd data off_x off_y n
              = Some (if deq (dmul rnd (dsqrt rnd (fl_variance rnd (window data (unat off_x) (unat n)) n)) (dsqrt rnd (fl_variance rnd (window data (unat off_x) (unat n)) n))) (Fin 0) then Fin (- 2) else dneg (ddiv rnd (fl_variance rnd (window data (unat off_x) (unat n)) n) (dmul rnd (dsqrt rnd (fl_variance rnd (window data (unat off_x) (unat n)) n)) (dsqrt rnd (fl_variance rnd (window data (unat off_x) (unat n)) n)))))"
    if "odd_rounding rnd"
    by (rule corrcoef_negated_formula [OF that assms])
  note f = corrcoef_negated_formula [OF odd_rounding_binary64 assms]
  have b: "\<exists>q. corrcoef binary64 data off_x off_y n = Some (Fin q) \<and> \<bar>q + 1\<bar> \<le> 1 / 2 ^ 50"
    if "fl_variance binary64 (window data (unat off_x) (unat n)) n = Fin a \<and> 1 / 2 ^ 1000 \<le> a \<and> a \<le> 2 ^ 1000" for a
  proof -
    from that have v: "fl_variance binary64 (window data (unat off_x) (unat n)) n = Fin a"
      and lo: "1 / 2 ^ 1000 \<le> a" and hi: "a \<le> 2 ^ 1000" by simp_all
    obtain p q where p: "dmul binary64 (dsqrt binary64 (Fin a)) (dsqrt binary64 (Fin a)) = Fin p"
      and pp: "0 < p" and q: "ddiv binary64 (Fin a) (Fin p) = Fin q" and qb: "\<bar>q - 1\<bar> \<le> 1 / 2 ^ 50"
      using binary64_unit_quotient [OF lo hi] by blast
    have "corrcoef binary64 data off_x off_y n = Some (Fin (- q))"
      using p pp q by (simp add: f v)
    moreover have "\<bar>- q + 1\<bar> \<le> 1 / 2 ^ 50" using qb by linarith
    ultimately show ?thesis by blast
  qed
  have c: "fl_variance binary64 (window data (unat off_x) (unat n)) n = Fin 0 \<longrightarrow> corrcoef binary64 data off_x off_y n = Some (Fin (- 2))"
    by (simp add: f)
  have d: "corrcoef exact data off_x off_y n = Some (Fin (- 1))"
    if "data = map Fin xs
          \<and> win_dot xs (unat off_x) (unat off_x) (unat n) - mean_square xs (unat off_x) (unat n) \<noteq> 0" for xs
  proof -
    from that have d: "data = map Fin xs"
      and v: "win_dot xs (unat off_x) (unat off_x) (unat n) - mean_square xs (unat off_x) (unat n) \<noteq> 0"
      by simp_all
    have inx: "unat off_x + unat n \<le> length xs" and iny: "unat off_y + unat n \<le> length xs"
      and len: "length xs < 2 ^ 64"
      using assms(1-3) by (simp_all add: d)
    have neg: "\<forall>k<unat n. xs ! (unat off_y + k) = - xs ! (unat off_x + k)"
    proof (intro allI impI)
      fix k assume k: "k < unat n"
      then have "data ! (unat off_y + k) = dneg (data ! (unat off_x + k))"
        using assms(4) by blast
      then show "xs ! (unat off_y + k) = - xs ! (unat off_x + k)"
        using k inx iny by (simp add: d)
    qed
    show ?thesis
      using corrcoef_negated_exact [OF inx iny len neg v] by (simp only: d)
  qed
  show ?thesis using a b c d by blast
qed

theorem corrcoef_negated_witness:
  "unat (0 :: size_t) + unat (4 :: size_t) \<le> length (map Fin [2, 0, 0, 0, - 2, 0, 0, 0])
   \<and> unat (4 :: size_t) + unat (4 :: size_t) \<le> length (map Fin [2, 0, 0, 0, - 2, 0, 0, 0])
   \<and> length (map Fin [2, 0, 0, 0, - 2, 0, 0, 0]) < 2 ^ 64
   \<and> map Fin [2, 0, 0, 0, - 2, 0, 0, 0] ! (unat (4 :: size_t) + 0) = dneg (map Fin [2, 0, 0, 0, - 2, 0, 0, 0] ! (unat (0 :: size_t) + 0))
   \<and> map Fin [2, 0, 0, 0, - 2, 0, 0, 0] ! (unat (4 :: size_t) + 1) = dneg (map Fin [2, 0, 0, 0, - 2, 0, 0, 0] ! (unat (0 :: size_t) + 1))
   \<and> map Fin [2, 0, 0, 0, - 2, 0, 0, 0] ! (unat (4 :: size_t) + 2) = dneg (map Fin [2, 0, 0, 0, - 2, 0, 0, 0] ! (unat (0 :: size_t) + 2))
   \<and> map Fin [2, 0, 0, 0, - 2, 0, 0, 0] ! (unat (4 :: size_t) + 3) = dneg (map Fin [2, 0, 0, 0, - 2, 0, 0, 0] ! (unat (0 :: size_t) + 3))
   \<and> odd_rounding binary64
   \<and> fl_variance binary64 (window (map Fin [2, 0, 0, 0, - 2, 0, 0, 0]) 0 4) 4 = Fin 3
   \<and> (1 :: real) / 2 ^ 1000 \<le> 3 \<and> (3 :: real) \<le> 2 ^ 1000
   \<and> (\<exists>q. corrcoef binary64 (map Fin [2, 0, 0, 0, - 2, 0, 0, 0]) 0 4 4 = Some (Fin q) \<and> \<bar>q + 1\<bar> \<le> 1 / 2 ^ 50)
   \<and> corrcoef binary64 (map Fin [2, 0, 0, 0, - 2, 0, 0, 0]) 0 4 4 = Some (Fin (- (4503599627370497 / 2 ^ 52)))
   \<and> fl_variance binary64 (window (map Fin [100000001, 100000002, - 100000001, - 100000002]) 0 2) 2 = Fin 0
   \<and> corrcoef binary64 (map Fin [100000001, 100000002, - 100000001, - 100000002]) 0 2 2 = Some (Fin (- 2))
   \<and> win_dot [2, 0, 0, 0, - 2, 0, 0, 0] 0 0 4 - mean_square [2, 0, 0, 0, - 2, 0, 0, 0] 0 4 \<noteq> 0
   \<and> corrcoef exact (map Fin [2, 0, 0, 0, - 2, 0, 0, 0]) 0 4 4 = Some (Fin (- 1))"
proof -
  have h: "unat (0 :: size_t) + unat (4 :: size_t) \<le> length (map Fin [2, 0, 0, 0, - 2, 0, 0, 0])"
    "unat (4 :: size_t) + unat (4 :: size_t) \<le> length (map Fin [2, 0, 0, 0, - 2, 0, 0, 0])"
    "length (map Fin [2, 0, 0, 0, - 2, 0, 0, 0]) < 2 ^ 64"
    by simp_all
  have n0: "map Fin [2, 0, 0, 0, - 2, 0, 0, 0] ! (unat (4 :: size_t) + 0) = dneg (map Fin [2, 0, 0, 0, - 2, 0, 0, 0] ! (unat (0 :: size_t) + 0))"
    and n1: "map Fin [2, 0, 0, 0, - 2, 0, 0, 0] ! (unat (4 :: size_t) + 1) = dneg (map Fin [2, 0, 0, 0, - 2, 0, 0, 0] ! (unat (0 :: size_t) + 1))"
    and n2: "map Fin [2, 0, 0, 0, - 2, 0, 0, 0] ! (unat (4 :: size_t) + 2) = dneg (map Fin [2, 0, 0, 0, - 2, 0, 0, 0] ! (unat (0 :: size_t) + 2))"
    and n3: "map Fin [2, 0, 0, 0, - 2, 0, 0, 0] ! (unat (4 :: size_t) + 3) = dneg (map Fin [2, 0, 0, 0, - 2, 0, 0, 0] ! (unat (0 :: size_t) + 3))"
    by simp_all
  have neg: "\<forall>k<unat (4 :: size_t). map Fin [2, 0, 0, 0, - 2, 0, 0, 0] ! (unat (4 :: size_t) + k)
      = dneg (map Fin [2, 0, 0, 0, - 2, 0, 0, 0] ! (unat (0 :: size_t) + k))"
  proof (intro allI impI)
    fix k :: nat assume "k < unat (4 :: size_t)"
    then have "k = 0 \<or> k = 1 \<or> k = 2 \<or> k = 3" by auto
    then show "map Fin [2, 0, 0, 0, - 2, 0, 0, 0] ! (unat (4 :: size_t) + k) = dneg (map Fin [2, 0, 0, 0, - 2, 0, 0, 0] ! (unat (0 :: size_t) + k))"
      using n0 n1 n2 n3 by auto
  qed
  note inst = corrcoef_negated [OF h neg]
  have u: "unat (0 :: size_t) = 0" "unat (2 :: size_t) = 2" "unat (4 :: size_t) = 4" by simp_all
  have odd: "odd_rounding binary64" by (rule odd_rounding_binary64)
  have v: "fl_variance binary64 (window (map Fin [2, 0, 0, 0, - 2, 0, 0, 0]) 0 4) 4 = Fin 3"
    by (simp add: fl_eval)
  have b: "(1 :: real) / 2 ^ 1000 \<le> 3" "(3 :: real) \<le> 2 ^ 1000" by simp_all
  have q: "\<exists>q. corrcoef binary64 (map Fin [2, 0, 0, 0, - 2, 0, 0, 0]) 0 4 4 = Some (Fin q) \<and> \<bar>q + 1\<bar> \<le> 1 / 2 ^ 50"
    using inst [of binary64, THEN conjunct2, THEN conjunct1, rule_format, of 3] v b
    by (simp only: u)
  have r: "corrcoef binary64 (map Fin [2, 0, 0, 0, - 2, 0, 0, 0]) 0 4 4 = Some (Fin (- (4503599627370497 / 2 ^ 52)))"
    using corrcoef_binary64_negated by simp
  have hs: "unat (0 :: size_t) + unat (2 :: size_t) \<le> length (map Fin [100000001, 100000002, - 100000001, - 100000002])"
    "unat (2 :: size_t) + unat (2 :: size_t) \<le> length (map Fin [100000001, 100000002, - 100000001, - 100000002])"
    "length (map Fin [100000001, 100000002, - 100000001, - 100000002]) < 2 ^ 64"
    by simp_all
  have negs: "\<forall>k<unat (2 :: size_t). map Fin [100000001, 100000002, - 100000001, - 100000002] ! (unat (2 :: size_t) + k)
      = dneg (map Fin [100000001, 100000002, - 100000001, - 100000002] ! (unat (0 :: size_t) + k))"
    by (simp add: less_2_cases_iff)
  have vs: "fl_variance binary64 (window (map Fin [100000001, 100000002, - 100000001, - 100000002]) 0 2) 2 = Fin 0"
    by (simp add: fl_eval rounded_integers)
  have rs: "corrcoef binary64 (map Fin [100000001, 100000002, - 100000001, - 100000002]) 0 2 2 = Some (Fin (- 2))"
    using corrcoef_negated [OF hs negs, of binary64, THEN conjunct2, THEN conjunct2, THEN conjunct1] vs
    by (simp only: u)
  have ve: "win_dot [2, 0, 0, 0, - 2, 0, 0, 0] 0 0 4 - mean_square [2, 0, 0, 0, - 2, 0, 0, 0] 0 4 \<noteq> (0 :: real)"
    by (simp add: pearson_eval)
  have e: "corrcoef exact (map Fin [2, 0, 0, 0, - 2, 0, 0, 0]) 0 4 4 = Some (Fin (- 1))"
    using inst [of exact, THEN conjunct2, THEN conjunct2, THEN conjunct2, rule_format, where xs = "[2, 0, 0, 0, - 2, 0, 0, 0]"] ve
    by (simp add: u)
  show ?thesis using h n0 n1 n2 n3 odd v b q r vs rs ve e by simp
qed

text \<open>
  C9 as stated gives exactly \<open>-1\<close> whenever the first window has nonzero variance. In
  binary64 the window \<open>[2, 0, 0, 0]\<close>, of variance 3, against its negation gives
  \<open>-(1 + 2^-52)\<close>, and the window \<open>[100000001, 100000002]\<close>, of variance \<open>1/2\<close>, against its
  negation gives the sentinel \<open>-2\<close>: its variance term is computed as 0.
\<close>

theorem corrcoef_negated_rounding_counterexample:
  "corrcoef binary64 (map Fin [2, 0, 0, 0, - 2, 0, 0, 0]) 0 4 4 = Some (Fin (- (4503599627370497 / 2 ^ 52)))
   \<and> (- (4503599627370497 / 2 ^ 52) :: real) \<noteq> - 1
   \<and> win_dot [2, 0, 0, 0, - 2, 0, 0, 0] 0 0 4 - mean_square [2, 0, 0, 0, - 2, 0, 0, 0] 0 4 = 3
   \<and> corrcoef binary64 (map Fin [100000001, 100000002, - 100000001, - 100000002]) 0 2 2 = Some (Fin (- 2))
   \<and> win_dot [100000001, 100000002, - 100000001, - 100000002] 0 0 2 - mean_square [100000001, 100000002, - 100000001, - 100000002] 0 2 = 1 / 2"
proof -
  have "corrcoef binary64 (map Fin [2, 0, 0, 0, - 2, 0, 0, 0]) 0 4 4 = Some (Fin (- (4503599627370497 / 2 ^ 52)))"
    using corrcoef_binary64_negated by (simp only: list.map)
  moreover have "(- (4503599627370497 / 2 ^ 52) :: real) \<noteq> - 1" by simp
  moreover have "win_dot [2, 0, 0, 0, - 2, 0, 0, 0] 0 0 4 - mean_square [2, 0, 0, 0, - 2, 0, 0, 0] 0 4 = (3 :: real)"
    by (simp add: pearson_eval)
  moreover have "corrcoef binary64 (map Fin [100000001, 100000002, - 100000001, - 100000002]) 0 2 2 = Some (Fin (- 2))" by (rule corrcoef_binary64_lost_variance_negated)
  moreover have "win_dot [100000001, 100000002, - 100000001, - 100000002] 0 0 2 - mean_square [100000001, 100000002, - 100000001, - 100000002] 0 2 = (1 / 2 :: real)"
    by (simp add: pearson_eval)
  ultimately show ?thesis by blast
qed

section \<open>The claims about the builders\<close>

text \<open>
  C2. For every rounding and every \<open>pow\<close> of the library: when the caller's guarantees hold
  and \<open>corrcoef\<close> returns the sentinel for no cell, \<open>correlogram_delay\<close> returns the success
  code 1 and, for every \<open>i < dims[0]\<close> and \<open>t < dims[1]\<close>, the cell \<open>i * dims[1] + t\<close> holds
  \<open>r > 0 ? pow(r, 4) : 0\<close> for \<open>r = corrcoef (sig, t, t + delays[i], wlen)\<close>. In exact
  arithmetic, for finite samples and \<open>wlen > 0\<close>, it is enough that no cell is degenerate
  (\<open>p_std\<close> is not 0), and the cell then holds the fourth power of the real number
  \<open>r = cov / p_std\<close> when \<open>r > 0\<close>, and 0 otherwise.
\<close>

theorem correlogram_delay_cells:
  "(delay_call_ok sig delays wlen D T cgram
      \<and> (\<forall>i<unat D. \<forall>t<unat T.
            corrcoef rnd sig (of_nat t) (of_nat t + delays ! i) wlen \<noteq> Some (Fin (- 2)))
    \<longrightarrow> (\<exists>cgram'. correlogram_delay rnd pw sig delays wlen [D, T] cgram = Some (1, cgram')
           \<and> length cgram' = length cgram
           \<and> (\<forall>i<unat D. \<forall>t<unat T. \<exists>r.
                 corrcoef rnd sig (of_nat t) (of_nat t + delays ! i) wlen = Some r
                 \<and> cgram' ! (i * unat T + t) = (if dgt r (Fin 0) then pw r 4 else Fin 0))))
   \<and> (delay_call_ok (map Fin xs) delays wlen D T cgram \<and> 0 < wlen
      \<and> (\<forall>i<unat D. \<forall>t<unat T. pearson_p_std xs t (t + unat (delays ! i)) (unat wlen) \<noteq> 0)
    \<longrightarrow> (\<exists>cgram'. correlogram_delay exact (dpow exact) (map Fin xs) delays wlen [D, T] cgram = Some (1, cgram')
           \<and> length cgram' = length cgram
           \<and> (\<forall>i<unat D. \<forall>t<unat T.
                 cgram' ! (i * unat T + t) = (if 0 < (pearson_cov xs t (t + unat (delays ! i)) (unat wlen) / pearson_p_std xs t (t + unat (delays ! i)) (unat wlen)) then Fin ((pearson_cov xs t (t + unat (delays ! i)) (unat wlen) / pearson_p_std xs t (t + unat (delays ! i)) (unat wlen)) ^ 4) else Fin 0))))"
proof (intro conjI impI)
  assume "delay_call_ok sig delays wlen D T cgram
      \<and> (\<forall>i<unat D. \<forall>t<unat T.
            corrcoef rnd sig (of_nat t) (of_nat t + delays ! i) wlen \<noteq> Some (Fin (- 2)))"
  then show "\<exists>cgram'. correlogram_delay rnd pw sig delays wlen [D, T] cgram = Some (1, cgram')
           \<and> length cgram' = length cgram
           \<and> (\<forall>i<unat D. \<forall>t<unat T. \<exists>r.
                 corrcoef rnd sig (of_nat t) (of_nat t + delays ! i) wlen = Some r
                 \<and> cgram' ! (i * unat T + t) = (if dgt r (Fin 0) then pw r 4 else Fin 0))"
    using correlogram_delay_success [of sig delays wlen D T cgram rnd pw] by blast
next
  assume "delay_call_ok (map Fin xs) delays wlen D T cgram \<and> 0 < wlen
      \<and> (\<forall>i<unat D. \<forall>t<unat T. pearson_p_std xs t (t + unat (delays ! i)) (unat wlen) \<noteq> 0)"
  then show "\<exists>cgram'. correlogram_delay exact (dpow exact) (map Fin xs) delays wlen [D, T] cgram = Some (1, cgram')
           \<and> length cgram' = length cgram
           \<and> (\<forall>i<unat D. \<forall>t<unat T.
                 cgram' ! (i * unat T + t) = (if 0 < (pearson_cov xs t (t + unat (delays ! i)) (unat wlen) / pearson_p_std xs t (t + unat (delays ! i)) (unat wlen)) then Fin ((pearson_cov xs t (t + unat (delays ! i)) (unat wlen) / pearson_p_std xs t (t + unat (delays ! i)) (unat wlen)) ^ 4) else Fin 0))"
    by (elim conjE) (rule correlogram_delay_exact_cells)
qed

theorem correlogram_delay_cells_witness:
  "delay_call_ok (map Fin [- 2, - 2, 0, 2, 2, - 2, - 2, 0]) [1, 2] 5 2 2 [Fin 7, Fin 7, Fin 7, Fin 7, Fin 7]
   \<and> corrcoef binary64 (map Fin [- 2, - 2, 0, 2, 2, - 2, - 2, 0]) 0 1 5 = Some (Fin (1 / 4))
   \<and> corrcoef binary64 (map Fin [- 2, - 2, 0, 2, 2, - 2, - 2, 0]) 1 2 5 = Some (Fin (1 / 4))
   \<and> corrcoef binary64 (map Fin [- 2, - 2, 0, 2, 2, - 2, - 2, 0]) 0 2 5 = Some (Fin (- (3 / 4)))
   \<and> corrcoef binary64 (map Fin [- 2, - 2, 0, 2, 2, - 2, - 2, 0]) 1 3 5 = Some (Fin (- (3 / 4)))
   \<and> (\<exists>cgram'. correlogram_delay binary64 (dpow binary64) (map Fin [- 2, - 2, 0, 2, 2, - 2, - 2, 0]) [1, 2] 5 [2, 2] [Fin 7, Fin 7, Fin 7, Fin 7, Fin 7] = Some (1, cgram')
          \<and> length cgram' = 5)
   \<and> correlogram_delay binary64 (dpow binary64) (map Fin [- 2, - 2, 0, 2, 2, - 2, - 2, 0]) [1, 2] 5 [2, 2] [Fin 7, Fin 7, Fin 7, Fin 7, Fin 7] = Some (1, [Fin (1 / 256), Fin (1 / 256), Fin 0, Fin 0, Fin 7])
   \<and> (0 :: size_t) < 5
   \<and> pearson_p_std [- 2, - 2, 0, 2, 2, - 2, - 2, 0] 0 1 5 = 16 \<and> pearson_p_std [- 2, - 2, 0, 2, 2, - 2, - 2, 0] 1 2 5 = 16
   \<and> pearson_p_std [- 2, - 2, 0, 2, 2, - 2, - 2, 0] 0 2 5 = 16 \<and> pearson_p_std [- 2, - 2, 0, 2, 2, - 2, - 2, 0] 1 3 5 = 16
   \<and> pearson_cov [- 2, - 2, 0, 2, 2, - 2, - 2, 0] 0 1 5 = 4 \<and> pearson_cov [- 2, - 2, 0, 2, 2, - 2, - 2, 0] 1 2 5 = 4
   \<and> pearson_cov [- 2, - 2, 0, 2, 2, - 2, - 2, 0] 0 2 5 = - 12 \<and> pearson_cov [- 2, - 2, 0, 2, 2, - 2, - 2, 0] 1 3 5 = - 12
   \<and> (\<exists>cgram'. correlogram_delay exact (dpow exact) (map Fin [- 2, - 2, 0, 2, 2, - 2, - 2, 0]) [1, 2] 5 [2, 2] [Fin 7, Fin 7, Fin 7, Fin 7, Fin 7] = Some (1, cgram')
          \<and> cgram' ! 0 = Fin ((4 / 16) ^ 4) \<and> cgram' ! 1 = Fin ((4 / 16) ^ 4)
          \<and> cgram' ! 2 = Fin 0 \<and> cgram' ! 3 = Fin 0)"
proof -
  have ok: "delay_call_ok (map Fin [- 2, - 2, 0, 2, 2, - 2, - 2, 0]) [1, 2] 5 2 2 [Fin 7, Fin 7, Fin 7, Fin 7, Fin 7]"
    by (auto simp: delay_call_ok_def less_2_cases_iff)
  note c = witness_signal_cells
  note e = witness_signal_exact
  have free: "\<forall>i<unat (2 :: size_t). \<forall>t<unat (2 :: size_t).
      corrcoef binary64 (map Fin [- 2, - 2, 0, 2, 2, - 2, - 2, 0]) (of_nat t) (of_nat t + [1, 2] ! i) 5 \<noteq> Some (Fin (- 2))"
    using c by (auto simp: less_2_cases_iff)
  have b: "\<exists>cgram'. correlogram_delay binary64 (dpow binary64) (map Fin [- 2, - 2, 0, 2, 2, - 2, - 2, 0]) [1, 2] 5 [2, 2] [Fin 7, Fin 7, Fin 7, Fin 7, Fin 7] = Some (1, cgram')
      \<and> length cgram' = 5"
    using correlogram_delay_cells [where rnd = binary64 and pw = "dpow binary64" and sig = "(map Fin [- 2, - 2, 0, 2, 2, - 2, - 2, 0])"
        and delays = "[1, 2]" and wlen = 5 and D = 2 and T = 2 and cgram = "[Fin 7, Fin 7, Fin 7, Fin 7, Fin 7]", THEN conjunct1] ok free
    by auto
  have r: "correlogram_delay binary64 (dpow binary64) (map Fin [- 2, - 2, 0, 2, 2, - 2, - 2, 0]) [1, 2] 5 [2, 2] [Fin 7, Fin 7, Fin 7, Fin 7, Fin 7] = Some (1, [Fin (1 / 256), Fin (1 / 256), Fin 0, Fin 0, Fin 7])"
    using correlogram_delay_binary64_cells by simp
  have w: "(0 :: size_t) < 5" by simp
  have reg0: "pearson_p_std [- 2, - 2, 0, 2, 2, - 2, - 2, 0] t (t + unat ([1, 2 :: size_t] ! i)) (unat (5 :: size_t)) \<noteq> 0"
    if "i = 0 \<or> i = 1" and "t = 0 \<or> t = 1" for i t :: nat
    using that by (elim disjE) (simp_all add: pearson_eval sqrt_16)
  have reg: "\<forall>i<unat (2 :: size_t). \<forall>t<unat (2 :: size_t).
      pearson_p_std [- 2, - 2, 0, 2, 2, - 2, - 2, 0] t (t + unat ([1, 2 :: size_t] ! i)) (unat (5 :: size_t)) \<noteq> 0"
  proof (intro allI impI)
    fix i t :: nat
    assume "i < unat (2 :: size_t)" and "t < unat (2 :: size_t)"
    then have "i = 0 \<or> i = 1" and "t = 0 \<or> t = 1" by auto
    then show "pearson_p_std [- 2, - 2, 0, 2, 2, - 2, - 2, 0] t (t + unat ([1, 2 :: size_t] ! i)) (unat (5 :: size_t)) \<noteq> 0"
      by (rule reg0)
  qed
  obtain cgram' where x: "correlogram_delay exact (dpow exact) (map Fin [- 2, - 2, 0, 2, 2, - 2, - 2, 0]) [1, 2] 5 [2, 2] [Fin 7, Fin 7, Fin 7, Fin 7, Fin 7] = Some (1, cgram')"
    and cells: "\<forall>i<unat (2 :: size_t). \<forall>t<unat (2 :: size_t).
        cgram' ! (i * unat (2 :: size_t) + t)
          = (if 0 < pearson_cov [- 2, - 2, 0, 2, 2, - 2, - 2, 0] t (t + unat ([1, 2 :: size_t] ! i)) (unat (5 :: size_t))
                     / pearson_p_std [- 2, - 2, 0, 2, 2, - 2, - 2, 0] t (t + unat ([1, 2 :: size_t] ! i)) (unat (5 :: size_t))
             then Fin ((pearson_cov [- 2, - 2, 0, 2, 2, - 2, - 2, 0] t (t + unat ([1, 2 :: size_t] ! i)) (unat (5 :: size_t))
                        / pearson_p_std [- 2, - 2, 0, 2, 2, - 2, - 2, 0] t (t + unat ([1, 2 :: size_t] ! i)) (unat (5 :: size_t))) ^ 4)
             else Fin 0)"
    using correlogram_delay_cells [where xs = "[- 2, - 2, 0, 2, 2, - 2, - 2, 0]" and delays = "[1, 2]" and wlen = 5 and D = 2 and T = 2
        and cgram = "[Fin 7, Fin 7, Fin 7, Fin 7, Fin 7]", THEN conjunct2] ok w reg
    by blast
  have "cgram' ! 0 = Fin ((4 / 16) ^ 4)"
    using cells [rule_format, of 0 0] by (simp add: pearson_eval sqrt_16)
  moreover have "cgram' ! 1 = Fin ((4 / 16) ^ 4)"
    using cells [rule_format, of 0 1] by (simp add: pearson_eval sqrt_16)
  moreover have "cgram' ! 2 = Fin 0"
    using cells [rule_format, of 1 0] by (simp add: pearson_eval sqrt_16)
  moreover have "cgram' ! 3 = Fin 0"
    using cells [rule_format, of 1 1] by (simp add: pearson_eval sqrt_16)
  ultimately have x': "\<exists>cgram'. correlogram_delay exact (dpow exact) (map Fin [- 2, - 2, 0, 2, 2, - 2, - 2, 0]) [1, 2] 5 [2, 2] [Fin 7, Fin 7, Fin 7, Fin 7, Fin 7] = Some (1, cgram')
          \<and> cgram' ! 0 = Fin ((4 / 16) ^ 4) \<and> cgram' ! 1 = Fin ((4 / 16) ^ 4)
          \<and> cgram' ! 2 = Fin 0 \<and> cgram' ! 3 = Fin 0"
    using x by blast
  show ?thesis using ok c b r w e x' by blast
qed

text \<open>
  C2 as stated asks only that no cell be degenerate. In binary64, for the signal
  \<open>[100000001, 100000004, 100000006, 100000003]\<close> with \<open>delays = [2]\<close>, \<open>wlen = 2\<close> and
  \<open>dims = [1, 1]\<close>, both windows of the only cell have the variance term \<open>9/2\<close>, so that
  \<open>p_std = 9/2\<close>; yet \<open>corrcoef\<close> returns \<open>-2\<close> as the quotient of the computed \<open>cov = -8\<close> and
  \<open>p_std = 4\<close>, and the builder returns the failure code 0 and writes nothing, whatever the
  library's \<open>pow\<close>.
\<close>

theorem correlogram_delay_cells_counterexample:
  "delay_call_ok (map Fin [100000001, 100000004, 100000006, 100000003]) [2] 2 1 1 [Fin 7]
   \<and> win_dot [100000001, 100000004, 100000006, 100000003] 0 0 2 - mean_square [100000001, 100000004, 100000006, 100000003] 0 2 = 9 / 2
   \<and> win_dot [100000001, 100000004, 100000006, 100000003] 2 2 2 - mean_square [100000001, 100000004, 100000006, 100000003] 2 2 = 9 / 2
   \<and> pearson_p_std [100000001, 100000004, 100000006, 100000003] 0 2 2 = 9 / 2
   \<and> corrcoef binary64 (map Fin [100000001, 100000004, 100000006, 100000003]) 0 2 2 = Some (Fin (- 2))
   \<and> (\<forall>pw. correlogram_delay binary64 pw (map Fin [100000001, 100000004, 100000006, 100000003]) [2] 2 [1, 1] [Fin 7] = Some (0, [Fin 7]))"
proof -
  have "delay_call_ok (map Fin [100000001, 100000004, 100000006, 100000003]) [2] 2 1 1 [Fin 7]"
    by (simp add: delay_call_ok_def)
  moreover have "win_dot [100000001, 100000004, 100000006, 100000003] 0 0 2 - mean_square [100000001, 100000004, 100000006, 100000003] 0 2 = (9 / 2 :: real)"
    and "win_dot [100000001, 100000004, 100000006, 100000003] 2 2 2 - mean_square [100000001, 100000004, 100000006, 100000003] 2 2 = (9 / 2 :: real)"
    and "pearson_p_std [100000001, 100000004, 100000006, 100000003] 0 2 2 = 9 / 2"
    by (simp_all add: pearson_eval)
  moreover have "corrcoef binary64 (map Fin [100000001, 100000004, 100000006, 100000003]) 0 2 2 = Some (Fin (- 2))" by (rule corrcoef_binary64_minus_two)
  moreover have "\<forall>pw. correlogram_delay binary64 pw (map Fin [100000001, 100000004, 100000006, 100000003]) [2] 2 [1, 1] [Fin 7] = Some (0, [Fin 7])"
    using correlogram_delay_binary64_abort by simp
  ultimately show ?thesis by blast
qed

text \<open>
  C4, for every rounding and both builders. When the coefficient of a cell is the
  sentinel and no earlier cell's is (in iteration order, delays outer, positions inner),
  the builder returns the failure code 0, every earlier cell holds the value it was
  given, and the failing cell and all later ones are as they were. When no cell's
  coefficient is the sentinel the builder returns the success code 1.
\<close>

theorem builders_abort_at_sentinel:
  "(delay_call_ok sig delays wlen D T cgram \<and> i0 < unat D \<and> t0 < unat T
      \<and> corrcoef rnd sig (of_nat t0) (of_nat t0 + delays ! i0) wlen = Some (Fin (- 2))
      \<and> (\<forall>i<unat D. \<forall>t<unat T. i < i0 \<or> (i = i0 \<and> t < t0) \<longrightarrow>
            corrcoef rnd sig (of_nat t) (of_nat t + delays ! i) wlen \<noteq> Some (Fin (- 2)))
    \<longrightarrow> (\<exists>cgram'. correlogram_delay rnd pw sig delays wlen [D, T] cgram = Some (0, cgram')
           \<and> length cgram' = length cgram
           \<and> (\<forall>i<unat D. \<forall>t<unat T. i < i0 \<or> (i = i0 \<and> t < t0) \<longrightarrow> (\<exists>r.
                 corrcoef rnd sig (of_nat t) (of_nat t + delays ! i) wlen = Some r
                 \<and> cgram' ! (i * unat T + t) = (if dgt r (Fin 0) then pw r 4 else Fin 0)))
           \<and> (\<forall>k<length cgram. i0 * unat T + t0 \<le> k \<longrightarrow> cgram' ! k = cgram ! k)))
   \<and> (delay_call_ok sig delays wlen D T cgram
      \<and> (\<forall>i<unat D. \<forall>t<unat T.
            corrcoef rnd sig (of_nat t) (of_nat t + delays ! i) wlen \<noteq> Some (Fin (- 2)))
    \<longrightarrow> (\<exists>cgram'. correlogram_delay rnd pw sig delays wlen [D, T] cgram = Some (1, cgram')))
   \<and> (range_call_ok sig wlen D T cgram \<and> 1 \<le> d0 \<and> d0 < unat D \<and> t0 < unat T
      \<and> corrcoef rnd sig (of_nat t0) (of_nat t0 + of_nat d0) wlen = Some (Fin (- 2))
      \<and> (\<forall>d t. 1 \<le> d \<and> d < unat D \<and> t < unat T \<and> (d < d0 \<or> (d = d0 \<and> t < t0)) \<longrightarrow>
            corrcoef rnd sig (of_nat t) (of_nat t + of_nat d) wlen \<noteq> Some (Fin (- 2)))
    \<longrightarrow> (\<exists>cgram'. correlogram rnd pw sig wlen [D, T] cgram = Some (0, cgram')
           \<and> length cgram' = length cgram
           \<and> (\<forall>d t. 1 \<le> d \<and> d < unat D \<and> t < unat T \<and> (d < d0 \<or> (d = d0 \<and> t < t0)) \<longrightarrow> (\<exists>r.
                 corrcoef rnd sig (of_nat t) (of_nat t + of_nat d) wlen = Some r
                 \<and> cgram' ! ((d - 1) * unat T + t) = (if dgt r (Fin 0) then pw r 4 else Fin 0)))
           \<and> (\<forall>k<length cgram. (d0 - 1) * unat T + t0 \<le> k \<longrightarrow> cgram' ! k = cgram ! k)))
   \<and> (range_call_ok sig wlen D T cgram
      \<and> (\<forall>d t. 1 \<le> d \<and> d < unat D \<and> t < unat T \<longrightarrow>
            corrcoef rnd sig (of_nat t) (of_nat t + of_nat d) wlen \<noteq> Some (Fin (- 2)))
    \<longrightarrow> (\<exists>cgram'. correlogram rnd pw sig wlen [D, T] cgram = Some (1, cgram')))"
proof (intro conjI impI)
  assume "delay_call_ok sig delays wlen D T cgram \<and> i0 < unat D \<and> t0 < unat T
      \<and> corrcoef rnd sig (of_nat t0) (of_nat t0 + delays ! i0) wlen = Some (Fin (- 2))
      \<and> (\<forall>i<unat D. \<forall>t<unat T. i < i0 \<or> (i = i0 \<and> t < t0) \<longrightarrow>
            corrcoef rnd sig (of_nat t) (of_nat t + delays ! i) wlen \<noteq> Some (Fin (- 2)))"
  then show "\<exists>cgram'. correlogram_delay rnd pw sig delays wlen [D, T] cgram = Some (0, cgram')
           \<and> length cgram' = length cgram
           \<and> (\<forall>i<unat D. \<forall>t<unat T. i < i0 \<or> (i = i0 \<and> t < t0) \<longrightarrow> (\<exists>r.
                 corrcoef rnd sig (of_nat t) (of_nat t + delays ! i) wlen = Some r
                 \<and> cgram' ! (i * unat T + t) = (if dgt r (Fin 0) then pw r 4 else Fin 0)))
           \<and> (\<forall>k<length cgram. i0 * unat T + t0 \<le> k \<longrightarrow> cgram' ! k = cgram ! k)"
    by (elim conjE) (rule correlogram_delay_abort)
next
  assume "delay_call_ok sig delays wlen D T cgram
      \<and> (\<forall>i<unat D. \<forall>t<unat T.
            corrcoef rnd sig (of_nat t) (of_nat t + delays ! i) wlen \<noteq> Some (Fin (- 2)))"
  then show "\<exists>cgram'. correlogram_delay rnd pw sig delays wlen [D, T] cgram = Some (1, cgram')"
    using correlogram_delay_success [of sig delays wlen D T cgram] by blast
next
  assume "range_call_ok sig wlen D T cgram \<and> 1 \<le> d0 \<and> d0 < unat D \<and> t0 < unat T
      \<and> corrcoef rnd sig (of_nat t0) (of_nat t0 + of_nat d0) wlen = Some (Fin (- 2))
      \<and> (\<forall>d t. 1 \<le> d \<and> d < unat D \<and> t < unat T \<and> (d < d0 \<or> (d = d0 \<and> t < t0)) \<longrightarrow>
            corrcoef rnd sig (of_nat t) (of_nat t + of_nat d) wlen \<noteq> Some (Fin (- 2)))"
  then show "\<exists>cgram'. correlogram rnd pw sig wlen [D, T] cgram = Some (0, cgram')
           \<and> length cgram' = length cgram
           \<and> (\<forall>d t. 1 \<le> d \<and> d < unat D \<and> t < unat T \<and> (d < d0 \<or> (d = d0 \<and> t < t0)) \<longrightarrow> (\<exists>r.
                 corrcoef rnd sig (of_nat t) (of_nat t + of_nat d) wlen = Some r
                 \<and> cgram' ! ((d - 1) * unat T + t) = (if dgt r (Fin 0) then pw r 4 else Fin 0)))
           \<and> (\<forall>k<length cgram. (d0 - 1) * unat T + t0 \<le> k \<longrightarrow> cgram' ! k = cgram ! k)"
    by (elim conjE) (rule correlogram_abort)
next
  assume "range_call_ok sig wlen D T cgram
      \<and> (\<forall>d t. 1 \<le> d \<and> d < unat D \<and> t < unat T \<longrightarrow>
            corrcoef rnd sig (of_nat t) (of_nat t + of_nat d) wlen \<noteq> Some (Fin (- 2)))"
  then show "\<exists>cgram'. correlogram rnd pw sig wlen [D, T] cgram = Some (1, cgram')"
    using correlogram_success [of sig wlen D T cgram] by blast
qed

theorem builders_abort_at_sentinel_witness:
  "delay_call_ok (map Fin [1, 2, 1, 1]) [1, 1] 2 2 2 [Fin 7, Fin 7, Fin 7, Fin 7]
   \<and> range_call_ok (map Fin [1, 2, 1, 1]) 2 2 2 [Fin 7, Fin 7, Fin 7, Fin 7]
   \<and> corrcoef exact (map Fin [1, 2, 1, 1]) 1 2 2 = Some (Fin (- 2))
   \<and> corrcoef exact (map Fin [1, 2, 1, 1]) 0 1 2 = Some (Fin (- 1))
   \<and> (\<exists>cgram'. correlogram_delay exact (dpow exact) (map Fin [1, 2, 1, 1]) [1, 1] 2 [2, 2]
                    [Fin 7, Fin 7, Fin 7, Fin 7] = Some (0, cgram'))
   \<and> (\<exists>cgram'. correlogram exact (dpow exact) (map Fin [1, 2, 1, 1]) 2 [2, 2]
                    [Fin 7, Fin 7, Fin 7, Fin 7] = Some (0, cgram'))
   \<and> correlogram_delay exact (dpow exact) (map Fin [1, 2, 1, 1]) [1, 1] 2 [2, 2] [Fin 7, Fin 7, Fin 7, Fin 7]
       = Some (0, [Fin 0, Fin 7, Fin 7, Fin 7])
   \<and> correlogram exact (dpow exact) (map Fin [1, 2, 1, 1]) 2 [2, 2] [Fin 7, Fin 7, Fin 7, Fin 7]
       = Some (0, [Fin 0, Fin 7, Fin 7, Fin 7])"
proof -
  let ?sig = "map Fin [1, 2, 1, 1]"
  let ?c = "[Fin 7, Fin 7, Fin 7, Fin 7]"
  have dok: "delay_call_ok ?sig [1, 1] 2 2 2 ?c"
    by (auto simp: delay_call_ok_def less_2_cases_iff)
  have rok: "range_call_ok ?sig 2 2 2 ?c"
    by (auto simp: range_call_ok_def)
  have bad: "corrcoef exact ?sig 1 2 2 = Some (Fin (- 2))"
    by (simp add: corrcoef_eval)
  have good: "corrcoef exact ?sig 0 1 2 = Some (Fin (- 1))"
    by (simp add: corrcoef_eval)
  have i0: "(0 :: nat) < unat (2 :: size_t)" and t0: "(1 :: nat) < unat (2 :: size_t)"
    and d0: "(1 :: nat) \<le> 1"
    by simp_all
  have dbad: "corrcoef exact ?sig (of_nat 1) (of_nat 1 + [1, 1] ! 0) 2 = Some (Fin (- 2))"
    using bad by simp
  have rbad: "corrcoef exact ?sig (of_nat 1) (of_nat 1 + of_nat 1) 2 = Some (Fin (- 2))"
    using bad by simp
  have dfirst: "\<forall>i<unat (2 :: size_t). \<forall>t<unat (2 :: size_t). i < 0 \<or> (i = 0 \<and> t < 1) \<longrightarrow>
      corrcoef exact ?sig (of_nat t) (of_nat t + [1, 1] ! i) 2 \<noteq> Some (Fin (- 2))"
    using good by auto
  have rfirst: "\<forall>d t. 1 \<le> d \<and> d < unat (2 :: size_t) \<and> t < unat (2 :: size_t)
        \<and> (d < 1 \<or> (d = 1 \<and> t < 1)) \<longrightarrow>
      corrcoef exact ?sig (of_nat t) (of_nat t + of_nat d) 2 \<noteq> Some (Fin (- 2))"
    using good by auto
  note inst = builders_abort_at_sentinel
      [where rnd = exact and pw = "dpow exact" and sig = ?sig and delays = "[1, 1]" and wlen = 2 and D = 2 and T = 2 and cgram = ?c
         and ?i0.0 = 0 and ?t0.0 = 1 and ?d0.0 = 1]
  have "\<exists>cgram'. correlogram_delay exact (dpow exact) ?sig [1, 1] 2 [2, 2] ?c = Some (0, cgram')"
    using inst [THEN conjunct1] dok i0 t0 dbad dfirst by blast
  moreover have "\<exists>cgram'. correlogram exact (dpow exact) ?sig 2 [2, 2] ?c = Some (0, cgram')"
    using inst [THEN conjunct2, THEN conjunct2, THEN conjunct1] rok d0 t0 rbad rfirst by blast
  moreover have "correlogram_delay exact (dpow exact) ?sig [1, 1] 2 [2, 2] ?c = Some (0, [Fin 0, Fin 7, Fin 7, Fin 7])"
    by (simp add: builder_eval corrcoef_eval)
  moreover have "correlogram exact (dpow exact) ?sig 2 [2, 2] ?c = Some (0, [Fin 0, Fin 7, Fin 7, Fin 7])"
    by (simp add: builder_eval corrcoef_eval)
  ultimately show ?thesis using dok rok bad good by blast
qed

text \<open>
  C5. For every rounding and every \<open>pow\<close> of the library: when the caller's guarantees hold
  and \<open>corrcoef\<close> returns the sentinel for no cell, \<open>correlogram\<close> with \<open>dims = [D, T]\<close>
  returns 1, stores in cell \<open>(delay - 1) * T + off\<close> the value \<open>r > 0 ? pow(r, 4) : 0\<close> of the
  window at \<open>off\<close> against the window at \<open>off + delay\<close>, for the delays \<open>1, ..., D - 1\<close> and the
  positions \<open>0, ..., T - 1\<close>, and leaves every cell from index \<open>(D - 1) * T\<close> on as it was. In
  exact arithmetic, for finite samples and \<open>wlen > 0\<close>, it is enough that no cell is
  degenerate, and the cell then holds the fourth power of the real number
  \<open>r = cov / p_std\<close> when \<open>r > 0\<close>, and 0 otherwise.
\<close>

theorem correlogram_range_cells:
  "(range_call_ok sig wlen D T cgram
      \<and> (\<forall>d t. 1 \<le> d \<and> d < unat D \<and> t < unat T \<longrightarrow>
            corrcoef rnd sig (of_nat t) (of_nat t + of_nat d) wlen \<noteq> Some (Fin (- 2)))
    \<longrightarrow> (\<exists>cgram'. correlogram rnd pw sig wlen [D, T] cgram = Some (1, cgram')
           \<and> length cgram' = length cgram
           \<and> (\<forall>d t. 1 \<le> d \<and> d < unat D \<and> t < unat T \<longrightarrow> (\<exists>r.
                 corrcoef rnd sig (of_nat t) (of_nat t + of_nat d) wlen = Some r
                 \<and> cgram' ! ((d - 1) * unat T + t) = (if dgt r (Fin 0) then pw r 4 else Fin 0)))
           \<and> (\<forall>k<length cgram. (unat D - 1) * unat T \<le> k \<longrightarrow> cgram' ! k = cgram ! k)))
   \<and> (range_call_ok (map Fin xs) wlen D T cgram \<and> 0 < wlen
      \<and> (\<forall>d t. 1 \<le> d \<and> d < unat D \<and> t < unat T \<longrightarrow> pearson_p_std xs t (t + d) (unat wlen) \<noteq> 0)
    \<longrightarrow> (\<exists>cgram'. correlogram exact (dpow exact) (map Fin xs) wlen [D, T] cgram = Some (1, cgram')
           \<and> length cgram' = length cgram
           \<and> (\<forall>d t. 1 \<le> d \<and> d < unat D \<and> t < unat T \<longrightarrow>
                 cgram' ! ((d - 1) * unat T + t) = (if 0 < (pearson_cov xs t (t + d) (unat wlen) / pearson_p_std xs t (t + d) (unat wlen)) then Fin ((pearson_cov xs t (t + d) (unat wlen) / pearson_p_std xs t (t + d) (unat wlen)) ^ 4) else Fin 0))
           \<and> (\<forall>k<length cgram. (unat D - 1) * unat T \<le> k \<longrightarrow> cgram' ! k = cgram ! k)))"
proof (intro conjI impI)
  assume "range_call_ok sig wlen D T cgram
      \<and> (\<forall>d t. 1 \<le> d \<and> d < unat D \<and> t < unat T \<longrightarrow>
            corrcoef rnd sig (of_nat t) (of_nat t + of_nat d) wlen \<noteq> Some (Fin (- 2)))"
  then show "\<exists>cgram'. correlogram rnd pw sig wlen [D, T] cgram = Some (1, cgram')
           \<and> length cgram' = length cgram
           \<and> (\<forall>d t. 1 \<le> d \<and> d < unat D \<and> t < unat T \<longrightarrow> (\<exists>r.
                 corrcoef rnd sig (of_nat t) (of_nat t + of_nat d) wlen = Some r
                 \<and> cgram' ! ((d - 1) * unat T + t) = (if dgt r (Fin 0) then pw r 4 else Fin 0)))
           \<and> (\<forall>k<length cgram. (unat D - 1) * unat T \<le> k \<longrightarrow> cgram' ! k = cgram ! k)"
    by (elim conjE) (rule correlogram_success)
next
  assume "range_call_ok (map Fin xs) wlen D T cgram \<and> 0 < wlen
      \<and> (\<forall>d t. 1 \<le> d \<and> d < unat D \<and> t < unat T \<longrightarrow> pearson_p_std xs t (t + d) (unat wlen) \<noteq> 0)"
  then show "\<exists>cgram'. correlogram exact (dpow exact) (map Fin xs) wlen [D, T] cgram = Some (1, cgram')
           \<and> length cgram' = length cgram
           \<and> (\<forall>d t. 1 \<le> d \<and> d < unat D \<and> t < unat T \<longrightarrow>
                 cgram' ! ((d - 1) * unat T + t) = (if 0 < (pearson_cov xs t (t + d) (unat wlen) / pearson_p_std xs t (t + d) (unat wlen)) then Fin ((pearson_cov xs t (t + d) (unat wlen) / pearson_p_std xs t (t + d) (unat wlen)) ^ 4) else Fin 0))
           \<and> (\<forall>k<length cgram. (unat D - 1) * unat T \<le> k \<longrightarrow> cgram' ! k = cgram ! k)"
    by (elim conjE) (rule correlogram_exact_cells)
qed

theorem correlogram_range_cells_witness:
  "range_call_ok (map Fin [- 2, - 2, 0, 2, 2, - 2, - 2, 0]) 5 3 2 [Fin 7, Fin 7, Fin 7, Fin 7, Fin 7]
   \<and> corrcoef binary64 (map Fin [- 2, - 2, 0, 2, 2, - 2, - 2, 0]) 0 1 5 = Some (Fin (1 / 4))
   \<and> corrcoef binary64 (map Fin [- 2, - 2, 0, 2, 2, - 2, - 2, 0]) 1 2 5 = Some (Fin (1 / 4))
   \<and> corrcoef binary64 (map Fin [- 2, - 2, 0, 2, 2, - 2, - 2, 0]) 0 2 5 = Some (Fin (- (3 / 4)))
   \<and> corrcoef binary64 (map Fin [- 2, - 2, 0, 2, 2, - 2, - 2, 0]) 1 3 5 = Some (Fin (- (3 / 4)))
   \<and> (\<exists>cgram'. correlogram binary64 (dpow binary64) (map Fin [- 2, - 2, 0, 2, 2, - 2, - 2, 0]) 5 [3, 2] [Fin 7, Fin 7, Fin 7, Fin 7, Fin 7] = Some (1, cgram')
          \<and> length cgram' = 5 \<and> cgram' ! 4 = Fin 7)
   \<and> correlogram binary64 (dpow binary64) (map Fin [- 2, - 2, 0, 2, 2, - 2, - 2, 0]) 5 [3, 2] [Fin 7, Fin 7, Fin 7, Fin 7, Fin 7] = Some (1, [Fin (1 / 256), Fin (1 / 256), Fin 0, Fin 0, Fin 7])
   \<and> (0 :: size_t) < 5
   \<and> pearson_p_std [- 2, - 2, 0, 2, 2, - 2, - 2, 0] 0 1 5 = 16 \<and> pearson_p_std [- 2, - 2, 0, 2, 2, - 2, - 2, 0] 1 2 5 = 16
   \<and> pearson_p_std [- 2, - 2, 0, 2, 2, - 2, - 2, 0] 0 2 5 = 16 \<and> pearson_p_std [- 2, - 2, 0, 2, 2, - 2, - 2, 0] 1 3 5 = 16
   \<and> pearson_cov [- 2, - 2, 0, 2, 2, - 2, - 2, 0] 0 1 5 = 4 \<and> pearson_cov [- 2, - 2, 0, 2, 2, - 2, - 2, 0] 1 2 5 = 4
   \<and> pearson_cov [- 2, - 2, 0, 2, 2, - 2, - 2, 0] 0 2 5 = - 12 \<and> pearson_cov [- 2, - 2, 0, 2, 2, - 2, - 2, 0] 1 3 5 = - 12
   \<and> (\<exists>cgram'. correlogram exact (dpow exact) (map Fin [- 2, - 2, 0, 2, 2, - 2, - 2, 0]) 5 [3, 2] [Fin 7, Fin 7, Fin 7, Fin 7, Fin 7] = Some (1, cgram')
          \<and> cgram' ! 0 = Fin ((4 / 16) ^ 4) \<and> cgram' ! 1 = Fin ((4 / 16) ^ 4)
          \<and> cgram' ! 2 = Fin 0 \<and> cgram' ! 3 = Fin 0 \<and> cgram' ! 4 = Fin 7)"
proof -
  have ok: "range_call_ok (map Fin [- 2, - 2, 0, 2, 2, - 2, - 2, 0]) 5 3 2 [Fin 7, Fin 7, Fin 7, Fin 7, Fin 7]"
    by (auto simp: range_call_ok_def)
  note c = witness_signal_cells
  note e = witness_signal_exact
  have cases: "(d = 1 \<or> d = 2) \<and> (t = 0 \<or> t = 1)"
    if "1 \<le> d \<and> d < unat (3 :: size_t) \<and> t < unat (2 :: size_t)" for d t :: nat
    using that by auto
  have free0: "corrcoef binary64 (map Fin [- 2, - 2, 0, 2, 2, - 2, - 2, 0]) (of_nat t) (of_nat t + of_nat d) 5 \<noteq> Some (Fin (- 2))"
    if "d = 1 \<or> d = 2" and "t = 0 \<or> t = 1" for d t :: nat
    using that c by (elim disjE) simp_all
  have free: "\<forall>d t. 1 \<le> d \<and> d < unat (3 :: size_t) \<and> t < unat (2 :: size_t) \<longrightarrow>
      corrcoef binary64 (map Fin [- 2, - 2, 0, 2, 2, - 2, - 2, 0]) (of_nat t) (of_nat t + of_nat d) 5 \<noteq> Some (Fin (- 2))"
    using cases free0 by blast
  obtain cb where b1: "correlogram binary64 (dpow binary64) (map Fin [- 2, - 2, 0, 2, 2, - 2, - 2, 0]) 5 [3, 2] [Fin 7, Fin 7, Fin 7, Fin 7, Fin 7] = Some (1, cb)"
    and b2: "length cb = length [Fin 7, Fin 7, Fin 7, Fin 7, Fin 7]"
    and b3: "\<forall>k<length [Fin 7, Fin 7, Fin 7, Fin 7, Fin 7]. (unat (3 :: size_t) - 1) * unat (2 :: size_t) \<le> k \<longrightarrow> cb ! k = [Fin 7, Fin 7, Fin 7, Fin 7, Fin 7] ! k"
    using correlogram_range_cells [where rnd = binary64 and pw = "dpow binary64" and sig = "(map Fin [- 2, - 2, 0, 2, 2, - 2, - 2, 0])"
        and wlen = 5 and D = 3 and T = 2 and cgram = "[Fin 7, Fin 7, Fin 7, Fin 7, Fin 7]", THEN conjunct1] ok free
    by blast
  have "cb ! 4 = Fin 7" using b3 [rule_format, of 4] by simp
  then have b: "\<exists>cgram'. correlogram binary64 (dpow binary64) (map Fin [- 2, - 2, 0, 2, 2, - 2, - 2, 0]) 5 [3, 2] [Fin 7, Fin 7, Fin 7, Fin 7, Fin 7] = Some (1, cgram')
      \<and> length cgram' = 5 \<and> cgram' ! 4 = Fin 7"
    using b1 b2 by simp
  have r: "correlogram binary64 (dpow binary64) (map Fin [- 2, - 2, 0, 2, 2, - 2, - 2, 0]) 5 [3, 2] [Fin 7, Fin 7, Fin 7, Fin 7, Fin 7] = Some (1, [Fin (1 / 256), Fin (1 / 256), Fin 0, Fin 0, Fin 7])"
    using correlogram_binary64_cells by simp
  have w: "(0 :: size_t) < 5" by simp
  have reg0: "pearson_p_std [- 2, - 2, 0, 2, 2, - 2, - 2, 0] t (t + d) (unat (5 :: size_t)) \<noteq> 0"
    if "d = 1 \<or> d = 2" and "t = 0 \<or> t = 1" for d t :: nat
    using that by (elim disjE) (simp_all add: pearson_eval sqrt_16)
  have reg: "\<forall>d t. 1 \<le> d \<and> d < unat (3 :: size_t) \<and> t < unat (2 :: size_t) \<longrightarrow>
      pearson_p_std [- 2, - 2, 0, 2, 2, - 2, - 2, 0] t (t + d) (unat (5 :: size_t)) \<noteq> 0"
    using cases reg0 by blast
  obtain cgram' where x: "correlogram exact (dpow exact) (map Fin [- 2, - 2, 0, 2, 2, - 2, - 2, 0]) 5 [3, 2] [Fin 7, Fin 7, Fin 7, Fin 7, Fin 7] = Some (1, cgram')"
    and cells: "\<forall>d t. 1 \<le> d \<and> d < unat (3 :: size_t) \<and> t < unat (2 :: size_t) \<longrightarrow>
        cgram' ! ((d - 1) * unat (2 :: size_t) + t)
          = (if 0 < pearson_cov [- 2, - 2, 0, 2, 2, - 2, - 2, 0] t (t + d) (unat (5 :: size_t)) / pearson_p_std [- 2, - 2, 0, 2, 2, - 2, - 2, 0] t (t + d) (unat (5 :: size_t))
             then Fin ((pearson_cov [- 2, - 2, 0, 2, 2, - 2, - 2, 0] t (t + d) (unat (5 :: size_t))
                        / pearson_p_std [- 2, - 2, 0, 2, 2, - 2, - 2, 0] t (t + d) (unat (5 :: size_t))) ^ 4)
             else Fin 0)"
    and frame: "\<forall>k<length [Fin 7, Fin 7, Fin 7, Fin 7, Fin 7]. (unat (3 :: size_t) - 1) * unat (2 :: size_t) \<le> k \<longrightarrow> cgram' ! k = [Fin 7, Fin 7, Fin 7, Fin 7, Fin 7] ! k"
    using correlogram_range_cells [where xs = "[- 2, - 2, 0, 2, 2, - 2, - 2, 0]" and wlen = 5 and D = 3 and T = 2
        and cgram = "[Fin 7, Fin 7, Fin 7, Fin 7, Fin 7]", THEN conjunct2] ok w reg
    by blast
  have "cgram' ! 0 = Fin ((4 / 16) ^ 4)"
    using cells [rule_format, of 1 0] by (simp add: pearson_eval sqrt_16)
  moreover have "cgram' ! 1 = Fin ((4 / 16) ^ 4)"
    using cells [rule_format, of 1 1] by (simp add: pearson_eval sqrt_16)
  moreover have "cgram' ! 2 = Fin 0"
    using cells [rule_format, of 2 0] by (simp add: pearson_eval sqrt_16)
  moreover have "cgram' ! 3 = Fin 0"
    using cells [rule_format, of 2 1] by (simp add: pearson_eval sqrt_16)
  moreover have "cgram' ! 4 = Fin 7"
    using frame [rule_format, of 4] by simp
  ultimately have x': "\<exists>cgram'. correlogram exact (dpow exact) (map Fin [- 2, - 2, 0, 2, 2, - 2, - 2, 0]) 5 [3, 2] [Fin 7, Fin 7, Fin 7, Fin 7, Fin 7] = Some (1, cgram')
          \<and> cgram' ! 0 = Fin ((4 / 16) ^ 4) \<and> cgram' ! 1 = Fin ((4 / 16) ^ 4)
          \<and> cgram' ! 2 = Fin 0 \<and> cgram' ! 3 = Fin 0 \<and> cgram' ! 4 = Fin 7"
    using x by blast
  show ?thesis using ok c b r w e x' by blast
qed

text \<open>
  C5 as stated asks only that no cell be degenerate. In binary64, for the signal
  \<open>[100000001, 100000004, 100000006, 100000003]\<close> with \<open>wlen = 2\<close> and \<open>dims = [3, 1]\<close>, the
  three windows have the variance terms \<open>9/2\<close>, 2 and \<open>9/2\<close>, so that no cell is degenerate;
  the cell of delay 1 gets \<open>pow(1, 4)\<close>, but for the cell of delay 2 \<open>corrcoef\<close> returns \<open>-2\<close>
  as the quotient of the computed \<open>cov = -8\<close> and \<open>p_std = 4\<close>, and the builder returns the
  failure code 0 with that cell unwritten, whatever the library's \<open>pow\<close>.
\<close>

theorem correlogram_range_cells_counterexample:
  "range_call_ok (map Fin [100000001, 100000004, 100000006, 100000003]) 2 3 1 [Fin 7, Fin 7]
   \<and> win_dot [100000001, 100000004, 100000006, 100000003] 0 0 2 - mean_square [100000001, 100000004, 100000006, 100000003] 0 2 = 9 / 2
   \<and> win_dot [100000001, 100000004, 100000006, 100000003] 1 1 2 - mean_square [100000001, 100000004, 100000006, 100000003] 1 2 = 2
   \<and> win_dot [100000001, 100000004, 100000006, 100000003] 2 2 2 - mean_square [100000001, 100000004, 100000006, 100000003] 2 2 = 9 / 2
   \<and> pearson_p_std [100000001, 100000004, 100000006, 100000003] 0 1 2 \<noteq> 0
   \<and> pearson_p_std [100000001, 100000004, 100000006, 100000003] 0 2 2 \<noteq> 0
   \<and> corrcoef binary64 (map Fin [100000001, 100000004, 100000006, 100000003]) 0 1 2 = Some (Fin 1)
   \<and> corrcoef binary64 (map Fin [100000001, 100000004, 100000006, 100000003]) 0 2 2 = Some (Fin (- 2))
   \<and> (\<forall>pw. correlogram binary64 pw (map Fin [100000001, 100000004, 100000006, 100000003]) 2 [3, 1] [Fin 7, Fin 7] = Some (0, [pw (Fin 1) 4, Fin 7]))"
proof -
  have "range_call_ok (map Fin [100000001, 100000004, 100000006, 100000003]) 2 3 1 [Fin 7, Fin 7]"
    by (auto simp: range_call_ok_def)
  moreover have "win_dot [100000001, 100000004, 100000006, 100000003] 0 0 2 - mean_square [100000001, 100000004, 100000006, 100000003] 0 2 = (9 / 2 :: real)"
    and "win_dot [100000001, 100000004, 100000006, 100000003] 1 1 2 - mean_square [100000001, 100000004, 100000006, 100000003] 1 2 = (2 :: real)"
    and "win_dot [100000001, 100000004, 100000006, 100000003] 2 2 2 - mean_square [100000001, 100000004, 100000006, 100000003] 2 2 = (9 / 2 :: real)"
    and "pearson_p_std [100000001, 100000004, 100000006, 100000003] 0 1 2 \<noteq> 0"
    and "pearson_p_std [100000001, 100000004, 100000006, 100000003] 0 2 2 \<noteq> 0"
    by (simp_all add: pearson_eval)
  moreover have "corrcoef binary64 (map Fin [100000001, 100000004, 100000006, 100000003]) 0 1 2 = Some (Fin 1)" by (rule corrcoef_binary64_delay_one)
  moreover have "corrcoef binary64 (map Fin [100000001, 100000004, 100000006, 100000003]) 0 2 2 = Some (Fin (- 2))" by (rule corrcoef_binary64_minus_two)
  moreover have "\<forall>pw. correlogram binary64 pw (map Fin [100000001, 100000004, 100000006, 100000003]) 2 [3, 1] [Fin 7, Fin 7] = Some (0, [pw (Fin 1) 4, Fin 7])"
    using correlogram_binary64_abort by simp
  ultimately show ?thesis by blast
qed

text \<open>
  C6. Whenever a builder returns the success code, every cell it wrote is not negative (a
  finite value \<open>v \<ge> 0\<close> or \<open>+inf\<close>, never NaN), for every rounding and every \<open>pow\<close> of the
  library that gives a value that is not negative for a positive base. In exact
  arithmetic every cell written is a finite value of the interval \<open>[0, 1]\<close>, whatever the
  samples (finite or not) and the window length.
\<close>

theorem builders_cells_unit_interval:
  "(delay_call_ok sig delays wlen D T cgram \<and> pow_nonneg pw
      \<and> correlogram_delay rnd pw sig delays wlen [D, T] cgram = Some (1, cgram')
    \<longrightarrow> (\<forall>i<unat D. \<forall>t<unat T. nonneg (cgram' ! (i * unat T + t))))
   \<and> (range_call_ok sig wlen D T cgram \<and> pow_nonneg pw
      \<and> correlogram rnd pw sig wlen [D, T] cgram = Some (1, cgram')
    \<longrightarrow> (\<forall>d t. 1 \<le> d \<and> d < unat D \<and> t < unat T \<longrightarrow> nonneg (cgram' ! ((d - 1) * unat T + t))))
   \<and> (delay_call_ok sig delays wlen D T cgram
      \<and> correlogram_delay exact (dpow exact) sig delays wlen [D, T] cgram = Some (1, cgram')
    \<longrightarrow> (\<forall>i<unat D. \<forall>t<unat T. \<exists>v. cgram' ! (i * unat T + t) = Fin v \<and> 0 \<le> v \<and> v \<le> 1))
   \<and> (range_call_ok sig wlen D T cgram
      \<and> correlogram exact (dpow exact) sig wlen [D, T] cgram = Some (1, cgram')
    \<longrightarrow> (\<forall>d t. 1 \<le> d \<and> d < unat D \<and> t < unat T \<longrightarrow>
          (\<exists>v. cgram' ! ((d - 1) * unat T + t) = Fin v \<and> 0 \<le> v \<and> v \<le> 1)))"
  using correlogram_delay_nonneg_cells [of sig delays wlen D T cgram pw rnd cgram']
    correlogram_nonneg_cells [of sig wlen D T cgram pw rnd cgram']
    correlogram_delay_unit_cells [of sig delays wlen D T cgram cgram']
    correlogram_unit_cells [of sig wlen D T cgram cgram']
  by blast

theorem builders_cells_unit_interval_witness:
  "delay_call_ok (map Fin [- 2, - 2, 0, 2, 2, - 2, - 2, 0]) [1, 2] 5 2 2 [Fin 7, Fin 7, Fin 7, Fin 7, Fin 7]
   \<and> range_call_ok (map Fin [- 2, - 2, 0, 2, 2, - 2, - 2, 0]) 5 3 2 [Fin 7, Fin 7, Fin 7, Fin 7, Fin 7]
   \<and> pow_nonneg (dpow binary64)
   \<and> correlogram_delay binary64 (dpow binary64) (map Fin [- 2, - 2, 0, 2, 2, - 2, - 2, 0]) [1, 2] 5 [2, 2] [Fin 7, Fin 7, Fin 7, Fin 7, Fin 7] = Some (1, [Fin (1 / 256), Fin (1 / 256), Fin 0, Fin 0, Fin 7])
   \<and> correlogram binary64 (dpow binary64) (map Fin [- 2, - 2, 0, 2, 2, - 2, - 2, 0]) 5 [3, 2] [Fin 7, Fin 7, Fin 7, Fin 7, Fin 7] = Some (1, [Fin (1 / 256), Fin (1 / 256), Fin 0, Fin 0, Fin 7])
   \<and> nonneg ([Fin (1 / 256), Fin (1 / 256), Fin 0, Fin 0, Fin 7] ! (0 * unat (2 :: size_t) + 0))
   \<and> nonneg ([Fin (1 / 256), Fin (1 / 256), Fin 0, Fin 0, Fin 7] ! (0 * unat (2 :: size_t) + 1))
   \<and> nonneg ([Fin (1 / 256), Fin (1 / 256), Fin 0, Fin 0, Fin 7] ! (1 * unat (2 :: size_t) + 0))
   \<and> nonneg ([Fin (1 / 256), Fin (1 / 256), Fin 0, Fin 0, Fin 7] ! (1 * unat (2 :: size_t) + 1))
   \<and> nonneg ([Fin (1 / 256), Fin (1 / 256), Fin 0, Fin 0, Fin 7] ! ((2 - 1) * unat (2 :: size_t) + 1))
   \<and> correlogram_delay exact (dpow exact) (map Fin [- 2, - 2, 0, 2, 2, - 2, - 2, 0]) [1, 2] 5 [2, 2] [Fin 7, Fin 7, Fin 7, Fin 7, Fin 7] = Some (1, [Fin (1 / 256), Fin (1 / 256), Fin 0, Fin 0, Fin 7])
   \<and> correlogram exact (dpow exact) (map Fin [- 2, - 2, 0, 2, 2, - 2, - 2, 0]) 5 [3, 2] [Fin 7, Fin 7, Fin 7, Fin 7, Fin 7] = Some (1, [Fin (1 / 256), Fin (1 / 256), Fin 0, Fin 0, Fin 7])
   \<and> (\<exists>v. [Fin (1 / 256), Fin (1 / 256), Fin 0, Fin 0, Fin 7] ! (0 * unat (2 :: size_t) + 1) = Fin v \<and> 0 \<le> v \<and> v \<le> 1)
   \<and> (\<exists>v. [Fin (1 / 256), Fin (1 / 256), Fin 0, Fin 0, Fin 7] ! (1 * unat (2 :: size_t) + 0) = Fin v \<and> 0 \<le> v \<and> v \<le> 1)
   \<and> (\<exists>v. [Fin (1 / 256), Fin (1 / 256), Fin 0, Fin 0, Fin 7] ! ((2 - 1) * unat (2 :: size_t) + 1) = Fin v \<and> 0 \<le> v \<and> v \<le> 1)"
proof -
  have dok: "delay_call_ok (map Fin [- 2, - 2, 0, 2, 2, - 2, - 2, 0]) [1, 2] 5 2 2 [Fin 7, Fin 7, Fin 7, Fin 7, Fin 7]"
    by (auto simp: delay_call_ok_def less_2_cases_iff)
  have rok: "range_call_ok (map Fin [- 2, - 2, 0, 2, 2, - 2, - 2, 0]) 5 3 2 [Fin 7, Fin 7, Fin 7, Fin 7, Fin 7]"
    by (auto simp: range_call_ok_def)
  have pw: "pow_nonneg (dpow binary64)" by (rule pow_nonneg_binary64)
  have db: "correlogram_delay binary64 (dpow binary64) (map Fin [- 2, - 2, 0, 2, 2, - 2, - 2, 0]) [1, 2] 5 [2, 2] [Fin 7, Fin 7, Fin 7, Fin 7, Fin 7] = Some (1, [Fin (1 / 256), Fin (1 / 256), Fin 0, Fin 0, Fin 7])"
    using correlogram_delay_binary64_cells by simp
  have rb: "correlogram binary64 (dpow binary64) (map Fin [- 2, - 2, 0, 2, 2, - 2, - 2, 0]) 5 [3, 2] [Fin 7, Fin 7, Fin 7, Fin 7, Fin 7] = Some (1, [Fin (1 / 256), Fin (1 / 256), Fin 0, Fin 0, Fin 7])"
    using correlogram_binary64_cells by simp
  have de: "correlogram_delay exact (dpow exact) (map Fin [- 2, - 2, 0, 2, 2, - 2, - 2, 0]) [1, 2] 5 [2, 2] [Fin 7, Fin 7, Fin 7, Fin 7, Fin 7] = Some (1, [Fin (1 / 256), Fin (1 / 256), Fin 0, Fin 0, Fin 7])"
    by (simp add: builder_eval corrcoef_eval sqrt_16 power_divide)
  have re: "correlogram exact (dpow exact) (map Fin [- 2, - 2, 0, 2, 2, - 2, - 2, 0]) 5 [3, 2] [Fin 7, Fin 7, Fin 7, Fin 7, Fin 7] = Some (1, [Fin (1 / 256), Fin (1 / 256), Fin 0, Fin 0, Fin 7])"
    by (simp add: builder_eval corrcoef_eval sqrt_16 power_divide)
  note inst = builders_cells_unit_interval [where sig = "(map Fin [- 2, - 2, 0, 2, 2, - 2, - 2, 0])" and delays = "[1, 2]" and wlen = 5
      and D = 2 and T = 2 and cgram = "[Fin 7, Fin 7, Fin 7, Fin 7, Fin 7]" and cgram' = "[Fin (1 / 256), Fin (1 / 256), Fin 0, Fin 0, Fin 7]"]
  note insr = builders_cells_unit_interval [where sig = "(map Fin [- 2, - 2, 0, 2, 2, - 2, - 2, 0])" and wlen = 5
      and D = 3 and T = 2 and cgram = "[Fin 7, Fin 7, Fin 7, Fin 7, Fin 7]" and cgram' = "[Fin (1 / 256), Fin (1 / 256), Fin 0, Fin 0, Fin 7]"]
  note n1 = inst [where rnd = binary64 and pw = "dpow binary64", THEN conjunct1, rule_format, OF conjI [OF dok conjI [OF pw db]]]
  note n2 = insr [where rnd = binary64 and pw = "dpow binary64", THEN conjunct2, THEN conjunct1, rule_format,
      OF conjI [OF rok conjI [OF pw rb]]]
  note n3 = inst [THEN conjunct2, THEN conjunct2, THEN conjunct1, rule_format, OF conjI [OF dok de]]
  note n4 = insr [THEN conjunct2, THEN conjunct2, THEN conjunct2, rule_format, OF conjI [OF rok re]]
  have a: "nonneg ([Fin (1 / 256), Fin (1 / 256), Fin 0, Fin 0, Fin 7] ! (0 * unat (2 :: size_t) + 0))"
    "nonneg ([Fin (1 / 256), Fin (1 / 256), Fin 0, Fin 0, Fin 7] ! (0 * unat (2 :: size_t) + 1))"
    "nonneg ([Fin (1 / 256), Fin (1 / 256), Fin 0, Fin 0, Fin 7] ! (1 * unat (2 :: size_t) + 0))"
    "nonneg ([Fin (1 / 256), Fin (1 / 256), Fin 0, Fin 0, Fin 7] ! (1 * unat (2 :: size_t) + 1))"
    by (rule n1; simp)+
  have b: "nonneg ([Fin (1 / 256), Fin (1 / 256), Fin 0, Fin 0, Fin 7] ! ((2 - 1) * unat (2 :: size_t) + 1))"
    by (rule n2) simp
  have c: "\<exists>v. [Fin (1 / 256), Fin (1 / 256), Fin 0, Fin 0, Fin 7] ! (0 * unat (2 :: size_t) + 1) = Fin v \<and> 0 \<le> v \<and> v \<le> 1"
    "\<exists>v. [Fin (1 / 256), Fin (1 / 256), Fin 0, Fin 0, Fin 7] ! (1 * unat (2 :: size_t) + 0) = Fin v \<and> 0 \<le> v \<and> v \<le> 1"
    by (rule n3; simp)+
  have d: "\<exists>v. [Fin (1 / 256), Fin (1 / 256), Fin 0, Fin 0, Fin 7] ! ((2 - 1) * unat (2 :: size_t) + 1) = Fin v \<and> 0 \<le> v \<and> v \<le> 1"
    by (rule n4) simp
  show ?thesis using dok rok pw db rb a b de re c d by blast
qed

text \<open>
  C6 as stated bounds every cell by 1. In binary64, \<open>correlogram_delay\<close> on the signal
  \<open>[100000001, 100000004, 100000002, 100000005]\<close> with \<open>delays = [2]\<close>, \<open>wlen = 2\<close> and
  \<open>dims = [1, 1]\<close> succeeds: the coefficient of the only cell is computed as
  \<open>cov / p_std = 8 / 4 = 2\<close>, and the cell gets \<open>pow(2, 4)\<close>, which is 16. The code has no
  bound on the coefficient and none on the cell.
\<close>

theorem builders_cells_rounding_counterexample:
  "delay_call_ok (map Fin [100000001, 100000004, 100000002, 100000005]) [2] 2 1 1 [Fin 0]
   \<and> corrcoef binary64 (map Fin [100000001, 100000004, 100000002, 100000005]) 0 2 2 = Some (Fin 2)
   \<and> (\<forall>pw. correlogram_delay binary64 pw (map Fin [100000001, 100000004, 100000002, 100000005]) [2] 2 [1, 1] [Fin 0] = Some (1, [pw (Fin 2) 4]))
   \<and> pow_nonneg (dpow binary64)
   \<and> dpow binary64 (Fin 2) 4 = Fin 16
   \<and> correlogram_delay binary64 (dpow binary64) (map Fin [100000001, 100000004, 100000002, 100000005]) [2] 2 [1, 1] [Fin 0] = Some (1, [Fin 16])
   \<and> (1 :: real) < 16"
proof -
  have "delay_call_ok (map Fin [100000001, 100000004, 100000002, 100000005]) [2] 2 1 1 [Fin 0]"
    by (simp add: delay_call_ok_def)
  moreover have "corrcoef binary64 (map Fin [100000001, 100000004, 100000002, 100000005]) 0 2 2 = Some (Fin 2)" by (rule corrcoef_binary64_two)
  moreover have "\<forall>pw. correlogram_delay binary64 pw (map Fin [100000001, 100000004, 100000002, 100000005]) [2] 2 [1, 1] [Fin 0] = Some (1, [pw (Fin 2) 4])"
    by (simp add: builder_eval rd_def corrcoef_binary64_two_cell)
  moreover have "pow_nonneg (dpow binary64)" by (rule pow_nonneg_binary64)
  moreover have "dpow binary64 (Fin 2) 4 = Fin 16" by simp
  moreover have "correlogram_delay binary64 (dpow binary64) (map Fin [100000001, 100000004, 100000002, 100000005]) [2] 2 [1, 1] [Fin 0] = Some (1, [Fin 16])"
    using correlogram_delay_binary64_sixteen by simp
  moreover have "(1 :: real) < 16" by simp
  ultimately show ?thesis by blast
qed

text \<open>
  C7, for every rounding. For \<open>D \<ge> 1\<close>, \<open>correlogram\<close> with \<open>dims = [D, T]\<close> gives the same
  return code and the same output matrix as \<open>correlogram_delay\<close> with the delays
  \<open>1, ..., D - 1\<close> and \<open>dims = [D - 1, T]\<close> (and it is undefined exactly when the other
  is).
\<close>

theorem correlogram_refines_delay:
  assumes "1 \<le> D"
  shows "correlogram rnd pw sig wlen [D, T] cgram
       = correlogram_delay rnd pw sig (map of_nat [1..<unat D]) wlen [D - 1, T] cgram"
proof -
  have "D \<noteq> 0" using assms by auto
  then show ?thesis by (rule correlogram_as_delay)
qed

theorem correlogram_refines_delay_witness:
  "(1 :: size_t) \<le> 3
   \<and> correlogram exact (dpow exact) (map Fin [1, 2, 1, 1, 3]) 2 [3, 2] [Fin 7, Fin 7, Fin 7, Fin 7]
       = correlogram_delay exact (dpow exact) (map Fin [1, 2, 1, 1, 3]) [1, 2] 2 [2, 2] [Fin 7, Fin 7, Fin 7, Fin 7]
   \<and> correlogram exact (dpow exact) (map Fin [1, 2, 1, 1, 3]) 2 [3, 2] [Fin 7, Fin 7, Fin 7, Fin 7]
       = Some (0, [Fin 0, Fin 7, Fin 7, Fin 7])"
proof -
  have le: "(1 :: size_t) \<le> 3" by simp
  have ds: "map of_nat [1..<unat (3 :: size_t)] = [1, 2 :: size_t]"
    by (simp add: upt_rec)
  have "correlogram exact (dpow exact) (map Fin [1, 2, 1, 1, 3]) 2 [3, 2] [Fin 7, Fin 7, Fin 7, Fin 7]
      = correlogram_delay exact (dpow exact) (map Fin [1, 2, 1, 1, 3]) [1, 2] 2 [2, 2] [Fin 7, Fin 7, Fin 7, Fin 7]"
    using correlogram_refines_delay [OF le, of exact "dpow exact" "map Fin [1, 2, 1, 1, 3]" 2 2 "[Fin 7, Fin 7, Fin 7, Fin 7]"]
    by (simp only: ds) simp
  moreover have "correlogram exact (dpow exact) (map Fin [1, 2, 1, 1, 3]) 2 [3, 2] [Fin 7, Fin 7, Fin 7, Fin 7]
      = Some (0, [Fin 0, Fin 7, Fin 7, Fin 7])"
    by (simp add: builder_eval corrcoef_eval)
  ultimately show ?thesis using le by blast
qed

text \<open>
  C10, for every rounding. With \<open>dims[0] = 0\<close> or \<open>dims[1] = 0\<close>, \<open>correlogram_delay\<close> returns 1
  and leaves the output matrix as it was; so does \<open>correlogram\<close> with \<open>dims[0] \<le> 1\<close> or
  \<open>dims[1] = 0\<close>.
\<close>

theorem builders_empty_dims:
  "(D = 0 \<or> T = 0 \<longrightarrow> correlogram_delay rnd pw sig delays wlen [D, T] cgram = Some (1, cgram))
   \<and> (D \<le> 1 \<or> T = 0 \<longrightarrow> correlogram rnd pw sig wlen [D, T] cgram = Some (1, cgram))"
  using correlogram_delay_no_rows [of rnd pw sig delays wlen T cgram]
    correlogram_delay_outer_empty [of rnd pw sig delays wlen D 0 cgram]
    correlogram_one_row [of D rnd pw sig wlen T cgram]
    correlogram_outer_empty [of rnd pw sig wlen D 1 cgram]
  by (auto simp: correlogram_delay_def correlogram_def)

theorem builders_empty_dims_witness:
  "correlogram_delay exact (dpow exact) (map Fin [5, 5]) [1] 2 [0, 3] [Fin 7] = Some (1, [Fin 7])
   \<and> correlogram_delay exact (dpow exact) (map Fin [5, 5]) [1] 2 [3, 0] [Fin 7] = Some (1, [Fin 7])
   \<and> correlogram exact (dpow exact) (map Fin [5, 5]) 2 [1, 3] [Fin 7] = Some (1, [Fin 7])
   \<and> correlogram exact (dpow exact) (map Fin [5, 5]) 2 [3, 0] [Fin 7] = Some (1, [Fin 7])"
  using builders_empty_dims [of 0 3 exact "dpow exact" "map Fin [5, 5]" "[1]" 2 "[Fin 7]"]
    builders_empty_dims [of 3 0 exact "dpow exact" "map Fin [5, 5]" "[1]" 2 "[Fin 7]"]
    builders_empty_dims [of 1 3 exact "dpow exact" "map Fin [5, 5]" "[1]" 2 "[Fin 7]"]
  by simp

end
